theory Spec2Isabelle
  imports Main "HOL-Library.AList" "HOL-Library.Char_ord" "HOL-Library.List_Lexorder"
begin

section \<open>The parse tree of ivy/nodes.py\<close>

text \<open>
  The module builds a tree of mutable \<open>Node\<close> objects that point at each other
  (\<open>parent\<close>, \<open>children\<close>), so the model keeps an explicit store: a heap is the list of
  all \<open>Node\<close> objects allocated so far and an object reference is an index into it.
  Python dictionaries are association lists in insertion order; \<open>d[k] = v\<close> is
  \<open>AList.update k v d\<close> (it replaces the value in place when the key is present and
  appends the pair otherwise).
\<close>

subsection \<open>Data\<close>

datatype pyval = PStr string | PInt int | PBool bool | PNone

datatype error = OSError | LoadError | KeyError string

type_synonym addr = nat

type_synonym 'v dict = "(string \<times> 'v) list"

record node =
  data :: "pyval dict"
  parent :: "addr option"
  children :: "addr dict"
  stem :: string
  slug :: string
  ext :: string

type_synonym heap = "node list"

text \<open>
  The module state: the objects, the global \<open>cache\<close>, and the log of the calls
  \<open>hooks.event(name, node)\<close> made so far, oldest first.
\<close>

record state =
  heap :: heap
  cache :: "addr option"
  events :: "(string \<times> addr) list"

text \<open>
  A call either returns a value or raises; both leave a store behind. A function that
  may loop forever returns an \<open>option\<close> of this, \<open>None\<close> standing for no result.
\<close>

datatype ('a, 's) outcome = Returns 'a 's | Raises error 's

text \<open>
  The collaborators the module imports: \<open>utils.slugify\<close>, the keys of
  \<open>renderers.callbacks\<close>, \<open>hooks.filter\<close> and \<open>renderers.render\<close>. They are
  parameters of the model, taken as pure total functions.
\<close>

record env =
  slugify :: "string \<Rightarrow> string"
  callbacks :: "string list"
  hfilter :: "string \<Rightarrow> pyval \<Rightarrow> node \<Rightarrow> pyval"
  render :: "pyval \<Rightarrow> string \<Rightarrow> pyval"

text \<open>
  The source directory as the scan sees it. An entry of a directory listing is a
  subdirectory (its \<open>path.stem\<close> and what \<open>iterdir()\<close> yields for it, \<open>None\<close> when
  \<open>iterdir()\<close> raises), a regular file (its \<open>path.stem\<close>, its
  \<open>path.suffix.strip('.')\<close> and what \<open>loader.load\<close> returns for it, \<open>None\<close> when the
  loader raises), or something that is neither \<open>is_dir()\<close> nor \<open>is_file()\<close>. The
  directory does not change while it is scanned.

  The builder reads \<open>path.stem\<close> of a directory as it does of a file, and \<open>path.stem\<close>
  is the name without its last dotted suffix: the directory \<open>v1.2/\<close> has the stem
  \<open>v1\<close>, the file \<open>v1.2.md\<close> the stem \<open>v1.2\<close>. An entry carries the stem, not the name.
\<close>

datatype fsentry =
    SubDir string "fsentry list option"
  | RegFile string string "(pyval \<times> pyval dict) option"
  | Special

subsection \<open>Node\<close>

text \<open>\<open>Node.__init__\<close>: empty fields, then the default attributes \<open>text\<close> and \<open>html\<close>.\<close>

definition new_node :: node where
  "new_node = \<lparr>data = AList.update ''html'' (PStr '''') (AList.update ''text'' (PStr '''') []),
     parent = None, children = [], stem = '''', slug = '''', ext = ''''\<rparr>"

text \<open>In-place change of the object at an address.\<close>

definition upd :: "heap \<Rightarrow> addr \<Rightarrow> (node \<Rightarrow> node) \<Rightarrow> heap" where
  "upd h a f = h[a := f (h ! a)]"

text \<open>\<open>__contains__\<close>, \<open>__getitem__\<close> (a missing key raises) and \<open>get\<close>.\<close>

definition contains :: "'v dict \<Rightarrow> string \<Rightarrow> bool" where
  "contains d k = (map_of d k \<noteq> None)"

definition getitem :: "'v dict \<Rightarrow> string \<Rightarrow> error + 'v" where
  "getitem d k = (case map_of d k of None \<Rightarrow> Inl (KeyError k) | Some v \<Rightarrow> Inr v)"

definition get :: "heap \<Rightarrow> addr \<Rightarrow> string \<Rightarrow> pyval \<Rightarrow> pyval" where
  "get h self key dflt = (case map_of (data (h ! self)) key of None \<Rightarrow> dflt | Some v \<Rightarrow> v)"

text \<open>
  \<open>inherit\<close>: the \<open>while self is not None\<close> loop over the parent links. The loop has
  no bound of its own, so it is a partial function: \<open>None\<close> is a loop that never ends.
\<close>

partial_function (option) inherit :: "heap \<Rightarrow> addr option \<Rightarrow> string \<Rightarrow> pyval \<Rightarrow> (error + pyval) option" where
  "inherit h self key dflt =
     (case self of
        None \<Rightarrow> Some (Inr dflt)
      | Some a \<Rightarrow>
          if contains (data (h ! a)) key then Some (getitem (data (h ! a)) key)
          else inherit h (parent (h ! a)) key dflt)"

text \<open>\<open>path\<close>: slugs are appended on the way up and the list is reversed at the end.\<close>

partial_function (option) path_loop :: "heap \<Rightarrow> addr \<Rightarrow> string list \<Rightarrow> string list option" where
  "path_loop h self slugs =
     (case parent (h ! self) of
        None \<Rightarrow> Some (rev slugs)
      | Some p \<Rightarrow> path_loop h p (slugs @ [slug (h ! self)]))"

definition path :: "heap \<Rightarrow> addr \<Rightarrow> string list option" where
  "path h self = path_loop h self []"



text \<open>
  \<open>childlist\<close>: \<open>sorted(self.children)\<close> sorts the keys of the dictionary (strings
  compare character by character), then each key is looked up again.
\<close>

fun getitems :: "'v dict \<Rightarrow> string list \<Rightarrow> error + 'v list" where
  "getitems d [] = Inr []"
| "getitems d (k # ks) =
     (case getitem d k of
        Inl e \<Rightarrow> Inl e
      | Inr v \<Rightarrow> (case getitems d ks of Inl e \<Rightarrow> Inl e | Inr vs \<Rightarrow> Inr (v # vs)))"

definition childlist :: "heap \<Rightarrow> addr \<Rightarrow> error + addr list" where
  "childlist h self = getitems (children (h ! self)) (sort (map fst (children (h ! self))))"

declare inherit.simps [code]
declare path_loop.simps [code]

subsection \<open>Lookup by path\<close>

text \<open>
  The loop of \<open>node(*slugs)\<close>, started at the node \<open>root()\<close> returned; the result
  \<open>None\<close> is Python's \<open>None\<close>.
\<close>

fun node_from :: "heap \<Rightarrow> addr \<Rightarrow> string list \<Rightarrow> addr option" where
  "node_from h n [] = Some n"
| "node_from h n (s # slugs) =
     (case map_of (children (h ! n)) s of
        None \<Rightarrow> None
      | Some c \<Rightarrow> node_from h c slugs)"

subsection \<open>The tree builder\<close>

text \<open>
  \<open>parse_node_file\<close>. Its call \<open>node(*dirnode.path, slug)\<close> goes through \<open>root()\<close>;
  the builder only runs inside \<open>root()\<close>, after \<open>cache\<close> has been set, so that call
  returns the cached node \<open>r\<close> at once and \<open>r\<close> is a parameter here. The file is
  given by its stem, its stripped suffix and the loader's result.
\<close>

definition parse_node_file ::
  "env \<Rightarrow> addr \<Rightarrow> heap \<Rightarrow> addr \<Rightarrow> string \<Rightarrow> string \<Rightarrow> (pyval \<times> pyval dict) option
     \<Rightarrow> (unit, heap) outcome option" where
  "parse_node_file env r h dirnode fstem fsuffix content =
     (let slg = slugify env fstem in
      case (if slg = ''index'' then Some (dirnode, h)
            else (case path h dirnode of
                    None \<Rightarrow> None
                  | Some ps \<Rightarrow>
                      let (filenode, h1) =
                            (case node_from h r (ps @ [slg]) of
                               Some n \<Rightarrow> (n, h)
                             | None \<Rightarrow> (length h, h @ [new_node]));
                          h2 = upd h1 filenode (\<lambda>n. n\<lparr>slug := slg, stem := fstem, parent := Some dirnode\<rparr>);
                          h3 = upd h2 dirnode (\<lambda>n. n\<lparr>children := AList.update slg filenode (children n)\<rparr>)
                      in Some (filenode, h3))) of
        None \<Rightarrow> None
      | Some (filenode, h3) \<Rightarrow>
          (case content of
             None \<Rightarrow> Some (Raises LoadError h3)
           | Some (text, meta) \<Rightarrow>
               let h4 = upd h3 filenode (\<lambda>n. n\<lparr>data := AList.update ''text'' text (data n)\<rparr>);
                   h5 = upd h4 filenode (\<lambda>n. n\<lparr>data := fold (case_prod AList.update) meta (data n)\<rparr>);
                   h6 = upd h5 filenode (\<lambda>n. n\<lparr>ext := fsuffix\<rparr>)
               in Some (Returns () h6)))"

text \<open>The second loop of \<open>parse_node_directory\<close>: the files of the listing, in order.\<close>

fun parse_files :: "env \<Rightarrow> addr \<Rightarrow> heap \<Rightarrow> addr \<Rightarrow> fsentry list \<Rightarrow> (unit, heap) outcome option" where
  "parse_files env r h dirnode [] = Some (Returns () h)"
| "parse_files env r h dirnode (RegFile fstem fsuffix content # es) =
     (if take 1 fstem = ''.'' then parse_files env r h dirnode es
      else if fsuffix \<notin> set (callbacks env) then parse_files env r h dirnode es
      else (case parse_node_file env r h dirnode fstem fsuffix content of
              None \<Rightarrow> None
            | Some (Raises e h') \<Rightarrow> Some (Raises e h')
            | Some (Returns u h') \<Rightarrow> parse_files env r h' dirnode es))"
| "parse_files env r h dirnode (SubDir s l # es) = parse_files env r h dirnode es"
| "parse_files env r h dirnode (Special # es) = parse_files env r h dirnode es"

text \<open>
  \<open>parse_node_directory\<close> with its first loop, the subdirectories of the listing in
  order. A listing \<open>None\<close> is an \<open>iterdir()\<close> that raises.
\<close>

fun parse_node_directory :: "env \<Rightarrow> addr \<Rightarrow> heap \<Rightarrow> addr \<Rightarrow> fsentry list option \<Rightarrow> (unit, heap) outcome option"
and parse_subdirs :: "env \<Rightarrow> addr \<Rightarrow> heap \<Rightarrow> addr \<Rightarrow> fsentry list \<Rightarrow> (unit, heap) outcome option" where
  "parse_node_directory env r h dirnode None = Some (Raises OSError h)"
| "parse_node_directory env r h dirnode (Some es) =
     (case parse_subdirs env r h dirnode es of
        None \<Rightarrow> None
      | Some (Raises e h') \<Rightarrow> Some (Raises e h')
      | Some (Returns u h') \<Rightarrow> parse_files env r h' dirnode es)"
| "parse_subdirs env r h dirnode [] = Some (Returns () h)"
| "parse_subdirs env r h dirnode (SubDir dstem listing # es) =
     (let slg = slugify env dstem;
          childnode = length h;
          h1 = h @ [new_node];
          h2 = upd h1 childnode (\<lambda>n. n\<lparr>slug := slg, stem := dstem, parent := Some dirnode\<rparr>);
          h3 = upd h2 dirnode (\<lambda>n. n\<lparr>children := AList.update slg childnode (children n)\<rparr>)
      in (case parse_node_directory env r h3 childnode listing of
            None \<Rightarrow> None
          | Some (Raises e h') \<Rightarrow> Some (Raises e h')
          | Some (Returns u h') \<Rightarrow> parse_subdirs env r h' dirnode es))"
| "parse_subdirs env r h dirnode (RegFile s x c # es) = parse_subdirs env r h dirnode es"
| "parse_subdirs env r h dirnode (Special # es) = parse_subdirs env r h dirnode es"

subsection \<open>Initialisation\<close>

definition setitem :: "state \<Rightarrow> addr \<Rightarrow> string \<Rightarrow> pyval \<Rightarrow> state" where
  "setitem st self key v = st\<lparr>heap := upd (heap st) self (\<lambda>n. n\<lparr>data := AList.update key v (data n)\<rparr>)\<rparr>"

definition event :: "string \<Rightarrow> addr \<Rightarrow> state \<Rightarrow> state" where
  "event name a st = st\<lparr>events := events st @ [(name, a)]\<rparr>"

text \<open>
  \<open>Node.init\<close>. The recursion follows the \<open>children\<close> references of the store, which
  nothing in the method bounds, so the model counts the nesting depth down from a fuel
  argument; \<open>None\<close> says the fuel ran out. \<open>init_children\<close> is the loop
  \<open>for node in self.children.values(): node.init()\<close>.
\<close>

fun init :: "nat \<Rightarrow> env \<Rightarrow> state \<Rightarrow> addr \<Rightarrow> (addr, state) outcome option"
and init_children :: "nat \<Rightarrow> env \<Rightarrow> state \<Rightarrow> addr list \<Rightarrow> (unit, state) outcome option" where
  "init 0 env st self = None"
| "init (Suc n) env st self =
     (case getitem (data (heap st ! self)) ''text'' of
        Inl e \<Rightarrow> Some (Raises e st)
      | Inr t \<Rightarrow>
          let t' = hfilter env ''node_text'' t (heap st ! self);
              st1 = setitem st self ''text'' t';
              html = render env t' (ext (heap st1 ! self));
              st2 = setitem st1 self ''html'' (hfilter env ''node_html'' html (heap st1 ! self))
          in (case init_children n env st2 (map snd (children (heap st2 ! self))) of
                None \<Rightarrow> None
              | Some (Raises e st3) \<Rightarrow> Some (Raises e st3)
              | Some (Returns u st3) \<Rightarrow> Some (Returns self (event ''init_node'' self st3))))"
| "init_children n env st [] = Some (Returns () st)"
| "init_children n env st (c # cs) =
     (case init n env st c of
        None \<Rightarrow> None
      | Some (Raises e st') \<Rightarrow> Some (Raises e st')
      | Some (Returns u st') \<Rightarrow> init_children n env st' cs)"

subsection \<open>The cache\<close>

text \<open>
  \<open>root()\<close>, with the listing of \<open>site.src()\<close> as an argument. The cache is assigned
  before the scan starts.
\<close>

definition root :: "nat \<Rightarrow> env \<Rightarrow> state \<Rightarrow> fsentry list option \<Rightarrow> (addr, state) outcome option" where
  "root fuel env st src =
     (case cache st of
        Some c \<Rightarrow> Some (Returns c st)
      | None \<Rightarrow>
          let c = length (heap st);
              st1 = st\<lparr>heap := heap st @ [new_node], cache := Some c\<rparr>
          in (case parse_node_directory env c (heap st1) c src of
                None \<Rightarrow> None
              | Some (Raises e h) \<Rightarrow> Some (Raises e (st1\<lparr>heap := h\<rparr>))
              | Some (Returns u h) \<Rightarrow>
                  (case init fuel env (st1\<lparr>heap := h\<rparr>) c of
                     None \<Rightarrow> None
                   | Some (Raises e st2) \<Rightarrow> Some (Raises e st2)
                   | Some (Returns n st2) \<Rightarrow> Some (Returns c (event ''init_tree'' n st2)))))"

text \<open>\<open>node(*slugs)\<close>: \<open>root()\<close>, then the lookup loop from the node it returned.\<close>

definition node :: "nat \<Rightarrow> env \<Rightarrow> state \<Rightarrow> fsentry list option \<Rightarrow> string list \<Rightarrow> (addr option, state) outcome option" where
  "node fuel env st src slugs =
     (case root fuel env st src of
        None \<Rightarrow> None
      | Some (Raises e st') \<Rightarrow> Some (Raises e st')
      | Some (Returns n st') \<Rightarrow> Some (Returns (node_from (heap st') n slugs) st'))"

subsection \<open>Reading an outcome\<close>

fun store_of :: "('a, 's) outcome \<Rightarrow> 's" where
  "store_of (Returns v s) = s"
| "store_of (Raises e s) = s"

subsection \<open>Well-formed trees\<close>

text \<open>
  The nodes of the tree under \<open>n\<close>: what the lookup loop reaches from \<open>n\<close> along some
  sequence of slugs (\<open>n\<close> itself along the empty one).
\<close>

definition reach :: "heap \<Rightarrow> addr \<Rightarrow> addr set" where
  "reach h n = {a. \<exists>ps. node_from h n ps = Some a}"

text \<open>
  The invariant of the objects allocated from \<open>r\<close> on, \<open>r\<close> being the root: the root has
  no parent; every later object has a parent that is older than itself; the keys of a
  \<open>children\<close> dictionary are distinct, and an entry \<open>(k, c)\<close> of node \<open>p\<close> is a younger
  object whose \<open>parent\<close> is \<open>p\<close> and whose \<open>slug\<close> is \<open>k\<close>; every node has the
  attribute \<open>text\<close>.
\<close>

definition tree_inv :: "heap \<Rightarrow> addr \<Rightarrow> bool" where
  "tree_inv h r \<longleftrightarrow>
     r < length h \<and> parent (h ! r) = None \<and>
     (\<forall>a. r < a \<and> a < length h \<longrightarrow> (\<exists>p. parent (h ! a) = Some p \<and> r \<le> p \<and> p < a)) \<and>
     (\<forall>p. r \<le> p \<and> p < length h \<longrightarrow>
        distinct (map fst (children (h ! p))) \<and>
        (\<forall>(k, c) \<in> set (children (h ! p)).
           p < c \<and> c < length h \<and> parent (h ! c) = Some p \<and> slug (h ! c) = k)) \<and>
     (\<forall>a. r \<le> a \<and> a < length h \<longrightarrow> contains (data (h ! a)) ''text'')"

text \<open>
  The situation in which the builder works on directory node \<open>d\<close>: the tree is well
  formed, \<open>d\<close> is in it, and every child \<open>d\<close> has so far is an object allocated at or
  after \<open>b\<close>, the size of the store when the scan of \<open>d\<close> began.
\<close>

definition ready :: "heap \<Rightarrow> addr \<Rightarrow> addr \<Rightarrow> nat \<Rightarrow> bool" where
  "ready h r d b \<longleftrightarrow>
     tree_inv h r \<and> d \<in> reach h r \<and> d < b \<and> b \<le> length h \<and>
     (\<forall>(k, c) \<in> set (children (h ! d)). b \<le> c)"

text \<open>
  What a part of the scan of \<open>d\<close> may do to the store: the situation persists, no
  object disappears, the objects older than \<open>b\<close> other than \<open>d\<close> are untouched, and \<open>d\<close>
  keeps its parent and slug.
\<close>

definition step_ok :: "heap \<Rightarrow> heap \<Rightarrow> addr \<Rightarrow> addr \<Rightarrow> nat \<Rightarrow> bool" where
  "step_ok h h' r d b \<longleftrightarrow>
     ready h' r d b \<and> length h \<le> length h' \<and>
     (\<forall>a. a < b \<and> a \<noteq> d \<longrightarrow> h' ! a = h ! a) \<and>
     parent (h' ! d) = parent (h ! d) \<and> slug (h' ! d) = slug (h ! d)"

text \<open>
  Two stores with the same objects up to their data, where no attribute was removed.
\<close>

definition same_shape :: "heap \<Rightarrow> heap \<Rightarrow> bool" where
  "same_shape h h' \<longleftrightarrow>
     length h' = length h \<and>
     (\<forall>a. a < length h \<longrightarrow>
        parent (h' ! a) = parent (h ! a) \<and> slug (h' ! a) = slug (h ! a) \<and>
        stem (h' ! a) = stem (h ! a) \<and> ext (h' ! a) = ext (h ! a) \<and>
        children (h' ! a) = children (h ! a) \<and>
        (\<forall>k. contains (data (h ! a)) k \<longrightarrow> contains (data (h' ! a)) k))"

text \<open>
  A chain of parent links: each node of the list is the parent of the one before it and
  the last one has no parent.
\<close>

fun parent_chain :: "heap \<Rightarrow> addr list \<Rightarrow> bool" where
  "parent_chain h [] = False"
| "parent_chain h [a] = (parent (h ! a) = None)"
| "parent_chain h (a # b # ns) = (parent (h ! a) = Some b \<and> parent_chain h (b # ns))"

text \<open>
  A firing order is bottom-up in a store when no node fires twice and, at the moment a
  node fires, every node of the tree under it has fired before it.
\<close>

definition fires_bottom_up :: "heap \<Rightarrow> addr list \<Rightarrow> bool" where
  "fires_bottom_up h evs \<longleftrightarrow>
     distinct evs \<and> (\<forall>pre x post. evs = pre @ x # post \<longrightarrow> reach h x \<subseteq> set (pre @ [x]))"





subsection \<open>A small site\<close>

text \<open>
  A concrete environment (slugs are the stems themselves, \<open>md\<close> is the one registered
  extension, filters and renderer change nothing), the state of a process that has not
  called \<open>root()\<close> yet, and a source directory with a coterminous pair \<open>blog/\<close> and
  \<open>blog.md\<close>, an index file, a hidden file and a nested post.
\<close>

definition demo_env :: env where
  "demo_env = \<lparr>slugify = (\<lambda>s. s), callbacks = [''md''], hfilter = (\<lambda>name v n. v), render = (\<lambda>t e. t)\<rparr>"

definition fresh :: state where
  "fresh = \<lparr>heap = [], cache = None, events = []\<rparr>"

definition demo_src :: "fsentry list option" where
  "demo_src = Some
     [RegFile ''blog'' ''md'' (Some (PStr ''B'', [(''title'', PStr ''Blog'')])),
      SubDir ''blog'' (Some
        [SubDir ''2023'' (Some [RegFile ''post'' ''md'' (Some (PStr ''P'', []))]),
         RegFile ''index'' ''md'' (Some (PStr ''I'', []))]),
      RegFile ''.hidden'' ''md'' (Some (PStr ''H'', [])),
      Special]"

text \<open>
  The state after the first \<open>root()\<close> on that site: four nodes (the root, \<open>blog\<close>,
  \<open>blog/2023\<close>, \<open>blog/2023/post\<close>) and the events fired.
\<close>

definition demo_built :: state where
  "demo_built =
     \<lparr>heap =
        [\<lparr>data = [(''text'', PStr ''''), (''html'', PStr '''')], parent = None,
            children = [(''blog'', 1)], stem = '''', slug = '''', ext = ''''\<rparr>,
         \<lparr>data = [(''text'', PStr ''B''), (''html'', PStr ''B''), (''title'', PStr ''Blog'')],
            parent = Some 0, children = [(''2023'', 2)], stem = ''blog'', slug = ''blog'', ext = ''md''\<rparr>,
         \<lparr>data = [(''text'', PStr ''''), (''html'', PStr '''')], parent = Some 1,
            children = [(''post'', 3)], stem = ''2023'', slug = ''2023'', ext = ''''\<rparr>,
         \<lparr>data = [(''text'', PStr ''P''), (''html'', PStr ''P'')], parent = Some 2,
            children = [], stem = ''post'', slug = ''post'', ext = ''md''\<rparr>],
      cache = Some 0,
      events = [(''init_node'', 3), (''init_node'', 2), (''init_node'', 1), (''init_node'', 0),
                (''init_tree'', 0)]\<rparr>"

text \<open>
  A source directory whose subdirectory \<open>a\<close> cannot be listed, and the state the failed
  first \<open>root()\<close> leaves behind: the root with its child \<open>a\<close>, neither initialised.
\<close>

definition broken_src :: "fsentry list option" where
  "broken_src = Some [SubDir ''a'' None]"

definition half_built :: state where
  "half_built =
     \<lparr>heap =
        [\<lparr>data = [(''text'', PStr ''''), (''html'', PStr '''')], parent = None,
            children = [(''a'', 1)], stem = '''', slug = '''', ext = ''''\<rparr>,
         \<lparr>data = [(''text'', PStr ''''), (''html'', PStr '''')], parent = Some 0,
            children = [], stem = ''a'', slug = ''a'', ext = ''''\<rparr>],
      cache = Some 0,
      events = []\<rparr>"

text \<open>
  A source directory with three entries at the top, listed out of order, and the state
  after the first \<open>root()\<close> on it: the subdirectory is scanned before the two files.
\<close>

definition sorting_src :: "fsentry list option" where
  "sorting_src = Some
     [RegFile ''beta'' ''md'' (Some (PStr ''b'', [])),
      SubDir ''gamma'' (Some []),
      RegFile ''alpha'' ''md'' (Some (PStr ''a'', []))]"

definition sorting_built :: state where
  "sorting_built =
     \<lparr>heap =
        [\<lparr>data = [(''text'', PStr ''''), (''html'', PStr '''')], parent = None,
            children = [(''gamma'', 1), (''beta'', 2), (''alpha'', 3)], stem = '''', slug = '''', ext = ''''\<rparr>,
         \<lparr>data = [(''text'', PStr ''''), (''html'', PStr '''')], parent = Some 0,
            children = [], stem = ''gamma'', slug = ''gamma'', ext = ''''\<rparr>,
         \<lparr>data = [(''text'', PStr ''b''), (''html'', PStr ''b'')], parent = Some 0,
            children = [], stem = ''beta'', slug = ''beta'', ext = ''md''\<rparr>,
         \<lparr>data = [(''text'', PStr ''a''), (''html'', PStr ''a'')], parent = Some 0,
            children = [], stem = ''alpha'', slug = ''alpha'', ext = ''md''\<rparr>],
      cache = Some 0,
      events = [(''init_node'', 1), (''init_node'', 2), (''init_node'', 3), (''init_node'', 0),
                (''init_tree'', 0)]\<rparr>"




section \<open>Properties\<close>

subsection \<open>The store\<close>

lemma length_upd [simp]: "length (upd h a f) = length h"
  by (simp add: upd_def)

lemma nth_upd_same [simp]: "a < length h \<Longrightarrow> upd h a f ! a = f (h ! a)"
  by (simp add: upd_def)

lemma nth_upd_other [simp]: "b \<noteq> a \<Longrightarrow> upd h a f ! b = h ! b"
  by (simp add: upd_def)

lemma upd_upd: "upd (upd h a f) a g = upd h a (\<lambda>n. g (f n))"
proof (cases "a < length h")
  case True
  then show ?thesis by (simp add: upd_def)
next
  case False
  then have "length h \<le> a" by simp
  then show ?thesis by (simp add: upd_def list_update_beyond)
qed

lemma upd_beyond: "length h \<le> a \<Longrightarrow> upd h a f = h"
  by (simp add: upd_def list_update_beyond)

subsection \<open>Dictionaries\<close>

lemma map_of_dict_update:
  "distinct (map fst meta) \<Longrightarrow>
   map_of (fold (case_prod AList.update) meta d) = map_of d ++ map_of meta"
proof (induction meta arbitrary: d)
  case Nil
  then show ?case by simp
next
  case (Cons kv meta)
  obtain k v where kv: "kv = (k, v)" by (cases kv)
  from Cons.prems kv have nk: "map_of meta k = None" and dm: "distinct (map fst meta)"
    by (auto simp: map_of_eq_None_iff)
  have "map_of (fold (case_prod AList.update) (kv # meta) d) = map_of (AList.update k v d) ++ map_of meta"
    using Cons.IH [OF dm] kv by simp
  also have "\<dots> = map_of d ++ map_of (kv # meta)"
    using nk kv by (auto simp: update_conv' map_add_def fun_eq_iff split: option.splits)
  finally show ?case .
qed

lemma map_of_dict_update_other:
  "k \<notin> fst ` set meta \<Longrightarrow> map_of (fold (case_prod AList.update) meta d) k = map_of d k"
  by (induction meta arbitrary: d) (auto simp: update_conv')

subsection \<open>Index files\<close>

lemma parse_node_file_index_eq:
  "slugify env fstem = ''index'' \<Longrightarrow>
   parse_node_file env r h d fstem fsuffix (Some (text, meta)) =
     Some (Returns () (upd h d (\<lambda>n. n\<lparr>data := fold (case_prod AList.update) meta (AList.update ''text'' text (data n)), ext := fsuffix\<rparr>)))"
  by (simp add: parse_node_file_def Let_def upd_upd)

lemma parse_node_file_index_raise:
  "slugify env fstem = ''index'' \<Longrightarrow>
   parse_node_file env r h d fstem fsuffix None = Some (Raises LoadError h)"
  by (simp add: parse_node_file_def)

text \<open>
  C3 as stated fails when the file's metadata has an entry \<open>text\<close> of its own: the
  metadata are merged after the text is stored, so the directory node's \<open>text\<close> is the
  metadata's value and the file's text is nowhere on the node.
\<close>

theorem index_text_replaced_by_metadata:
  "parse_node_file demo_env 0 [new_node] 0 ''index'' ''md''
     (Some (PStr ''body'', [(''text'', PStr ''from the metadata'')]))
   = Some (Returns ()
       [\<lparr>data = [(''text'', PStr ''from the metadata''), (''html'', PStr '''')], parent = None,
          children = [], stem = '''', slug = '''', ext = ''md''\<rparr>])
   \<and> map_of [(''text'', PStr ''from the metadata''), (''html'', PStr '''')] ''text'' \<noteq> Some (PStr ''body'')"
  by (simp add: parse_node_file_index_eq demo_env_def new_node_def upd_def)

text \<open>
  C3, amended. A file whose stem slugifies to \<open>index\<close>, parsed in directory \<open>d\<close> (an
  existing node; the loader returns a text and a metadata dictionary): the call returns;
  the data of \<open>d\<close>'s own node are what they were, with the file's text under \<open>text\<close> and
  then the file's metadata merged over that, so every metadata entry is on the node and
  \<open>text\<close> is the file's text unless the metadata have their own \<open>text\<close> entry, which
  then is the one stored; the file's extension is the node's \<open>ext\<close>; no object is created
  and \<open>d\<close>'s children have the keys they had, so no child \<open>index\<close> appears.
\<close>

theorem index_file_fills_directory_node:
  assumes "slugify env fstem = ''index''" and "d < length h" and "distinct (map fst meta)"
  shows "\<exists>h'. parse_node_file env r h d fstem fsuffix (Some (text, meta)) = Some (Returns () h')
           \<and> map_of (data (h' ! d)) = (map_of (data (h ! d)))(''text'' \<mapsto> text) ++ map_of meta
           \<and> map_of (data (h' ! d)) ''text'' = Some (case map_of meta ''text'' of None \<Rightarrow> text | Some v \<Rightarrow> v)
           \<and> (\<forall>k v. map_of meta k = Some v \<longrightarrow> map_of (data (h' ! d)) k = Some v)
           \<and> ext (h' ! d) = fsuffix
           \<and> map fst (children (h' ! d)) = map fst (children (h ! d))
           \<and> length h' = length h"
  using assms
  by (simp add: parse_node_file_index_eq map_of_dict_update update_conv' map_add_def split: option.splits)

theorem index_file_fills_directory_node_witness:
  "\<exists>h'. parse_node_file demo_env 0 [new_node] 0 ''index'' ''md''
            (Some (PStr ''hello'', [(''title'', PStr ''Home'')])) = Some (Returns () h')
         \<and> map_of (data (h' ! 0)) =
             (map_of (data ([new_node] ! 0)))(''text'' \<mapsto> PStr ''hello'') ++ map_of [(''title'', PStr ''Home'')]
         \<and> map_of (data (h' ! 0)) ''text'' = Some (PStr ''hello'')
         \<and> map_of (data (h' ! 0)) ''title'' = Some (PStr ''Home'')
         \<and> ext (h' ! 0) = ''md''
         \<and> map fst (children (h' ! 0)) = map fst (children ([new_node] ! 0))
         \<and> length h' = length [new_node]"
proof -
  have s: "slugify demo_env ''index'' = ''index''" by (simp add: demo_env_def)
  have d: "distinct (map fst [(''title'', PStr ''Home'')])" by simp
  from index_file_fills_directory_node [OF s _ d, of 0 "[new_node]" 0 "''md''" "PStr ''hello''"]
  obtain h' where p: "parse_node_file demo_env 0 [new_node] 0 ''index'' ''md''
            (Some (PStr ''hello'', [(''title'', PStr ''Home'')])) = Some (Returns () h')"
    and m: "map_of (data (h' ! 0)) =
             (map_of (data ([new_node] ! 0)))(''text'' \<mapsto> PStr ''hello'') ++ map_of [(''title'', PStr ''Home'')]"
    and t: "map_of (data (h' ! 0)) ''text'' =
             Some (case map_of [(''title'', PStr ''Home'')] ''text'' of None \<Rightarrow> PStr ''hello'' | Some v \<Rightarrow> v)"
    and k: "\<forall>k v. map_of [(''title'', PStr ''Home'')] k = Some v \<longrightarrow> map_of (data (h' ! 0)) k = Some v"
    and e: "ext (h' ! 0) = ''md''"
    and c: "map fst (children (h' ! 0)) = map fst (children ([new_node] ! 0))"
    and l: "length h' = length [new_node]"
    by auto
  from t have t': "map_of (data (h' ! 0)) ''text'' = Some (PStr ''hello'')" by simp
  from k have k': "map_of (data (h' ! 0)) ''title'' = Some (PStr ''Home'')" by simp
  from p m t' k' e c l show ?thesis by (intro exI [of _ h'] conjI)
qed

text \<open>
  C10. The index merge leaves the directory node's slug, stem, parent and children as
  they were, and every other object untouched; in the node's data only the key \<open>text\<close>
  and the keys of the file's metadata can change.
\<close>

theorem index_merge_frame:
  assumes "slugify env fstem = ''index''"
  shows "\<exists>h'. parse_node_file env r h d fstem fsuffix (Some (text, meta)) = Some (Returns () h')
           \<and> slug (h' ! d) = slug (h ! d) \<and> stem (h' ! d) = stem (h ! d)
           \<and> parent (h' ! d) = parent (h ! d) \<and> children (h' ! d) = children (h ! d)
           \<and> (\<forall>a. a \<noteq> d \<longrightarrow> h' ! a = h ! a)
           \<and> (\<forall>k. k \<noteq> ''text'' \<and> k \<notin> fst ` set meta \<longrightarrow>
                  map_of (data (h' ! d)) k = map_of (data (h ! d)) k)"
proof (cases "d < length h")
  case True
  then show ?thesis
    using assms by (simp add: parse_node_file_index_eq map_of_dict_update_other update_conv')
next
  case False
  then have "length h \<le> d" by simp
  then show ?thesis
    using assms by (simp add: parse_node_file_index_eq upd_beyond)
qed

theorem index_merge_frame_witness:
  "\<exists>h'. parse_node_file demo_env 0
            [new_node\<lparr>slug := ''d'', stem := ''D'', children := [(''c'', 1)]\<rparr>, new_node] 0 ''index'' ''md''
            (Some (PStr ''hello'', [(''title'', PStr ''Home'')])) = Some (Returns () h')
         \<and> slug (h' ! 0) = ''d'' \<and> stem (h' ! 0) = ''D'' \<and> parent (h' ! 0) = None
         \<and> children (h' ! 0) = [(''c'', 1)]
         \<and> h' ! 1 = new_node
         \<and> map_of (data (h' ! 0)) ''html'' = Some (PStr '''')"
  using index_merge_frame
    [of demo_env "''index''" 0 "[new_node\<lparr>slug := ''d'', stem := ''D'', children := [(''c'', 1)]\<rparr>, new_node]"
        0 "''md''" "PStr ''hello''" "[(''title'', PStr ''Home'')]"]
  by (auto simp add: demo_env_def new_node_def)

subsection \<open>The invariant and the lookup\<close>

lemma tree_inv_root: "tree_inv h r \<Longrightarrow> r < length h \<and> parent (h ! r) = None"
  by (simp add: tree_inv_def)

lemma tree_inv_parent:
  "tree_inv h r \<Longrightarrow> r < a \<Longrightarrow> a < length h \<Longrightarrow> \<exists>p. parent (h ! a) = Some p \<and> r \<le> p \<and> p < a"
  by (simp add: tree_inv_def)

lemma tree_inv_distinct:
  "tree_inv h r \<Longrightarrow> r \<le> p \<Longrightarrow> p < length h \<Longrightarrow> distinct (map fst (children (h ! p)))"
  by (simp add: tree_inv_def)

lemma tree_inv_child:
  "tree_inv h r \<Longrightarrow> r \<le> p \<Longrightarrow> p < length h \<Longrightarrow> (k, c) \<in> set (children (h ! p)) \<Longrightarrow>
   p < c \<and> c < length h \<and> parent (h ! c) = Some p \<and> slug (h ! c) = k"
  by (fastforce simp: tree_inv_def)

lemma tree_inv_text:
  "tree_inv h r \<Longrightarrow> r \<le> a \<Longrightarrow> a < length h \<Longrightarrow> contains (data (h ! a)) ''text''"
  by (simp add: tree_inv_def)

lemma tree_inv_lookup:
  "tree_inv h r \<Longrightarrow> r \<le> p \<Longrightarrow> p < length h \<Longrightarrow> map_of (children (h ! p)) k = Some c \<Longrightarrow>
   p < c \<and> c < length h \<and> parent (h ! c) = Some p \<and> slug (h ! c) = k"
  using tree_inv_child [of h r p k c] by (simp add: map_of_SomeD)

lemma node_from_append:
  "node_from h n (ps @ qs) = (case node_from h n ps of None \<Rightarrow> None | Some m \<Rightarrow> node_from h m qs)"
  by (induction ps arbitrary: n) (auto split: option.splits)

lemma node_from_bounds:
  "tree_inv h r \<Longrightarrow> r \<le> n \<Longrightarrow> n < length h \<Longrightarrow> node_from h n ps = Some a \<Longrightarrow>
   n \<le> a \<and> a < length h"
proof (induction ps arbitrary: n)
  case Nil
  then show ?case by simp
next
  case (Cons s ps)
  from Cons.prems obtain c where c: "map_of (children (h ! n)) s = Some c" and rest: "node_from h c ps = Some a"
    by (auto split: option.splits)
  from tree_inv_lookup [OF Cons.prems(1-3) c] have "n < c" "c < length h" by simp_all
  with Cons.IH [of c] Cons.prems rest show ?case by force
qed

lemma reach_bounds: "tree_inv h r \<Longrightarrow> a \<in> reach h r \<Longrightarrow> r \<le> a \<and> a < length h"
  using node_from_bounds [of h r r] by (auto simp: reach_def dest: tree_inv_root)

text \<open>The loop of \<open>path\<close> undoes the lookup.\<close>

lemma path_loop_node_from:
  "tree_inv h r \<Longrightarrow> r \<le> n \<Longrightarrow> n < length h \<Longrightarrow> node_from h n ps = Some a \<Longrightarrow>
   path_loop h a acc = path_loop h n (acc @ rev ps)"
proof (induction ps arbitrary: a acc rule: rev_induct)
  case Nil
  then show ?case by simp
next
  case (snoc s ps)
  from snoc.prems(4) obtain m where m: "node_from h n ps = Some m" and c: "map_of (children (h ! m)) s = Some a"
    by (auto simp: node_from_append split: option.splits)
  from node_from_bounds [OF snoc.prems(1-3) m] snoc.prems have mb: "r \<le> m" "m < length h" by simp_all
  from tree_inv_lookup [OF snoc.prems(1) mb c] have pa: "parent (h ! a) = Some m" "slug (h ! a) = s" by simp_all
  have "path_loop h a acc = path_loop h m (acc @ [s])"
    by (subst path_loop.simps) (simp add: pa)
  also have "\<dots> = path_loop h n ((acc @ [s]) @ rev ps)"
    by (rule snoc.IH [OF snoc.prems(1-3) m])
  finally show ?case by simp
qed

lemma path_node_from:
  assumes "tree_inv h r" and "node_from h r ps = Some a"
  shows "path h a = Some ps"
proof -
  from assms(1) have r: "r < length h" "parent (h ! r) = None" by (simp_all add: tree_inv_root)
  have "path h a = path_loop h r (rev ps)"
    unfolding path_def using path_loop_node_from [OF assms(1) _ r(1) assms(2), of "[]"] by simp
  also have "\<dots> = Some ps"
    by (subst path_loop.simps) (simp add: r)
  finally show ?thesis .
qed

text \<open>The invariant only reads parents, slugs, children and the presence of \<open>text\<close>.\<close>

lemma tree_inv_same_shape:
  assumes "tree_inv h r" and "length h' = length h"
    and "\<And>a. a < length h \<Longrightarrow> parent (h' ! a) = parent (h ! a) \<and> slug (h' ! a) = slug (h ! a)
            \<and> children (h' ! a) = children (h ! a)
            \<and> (contains (data (h ! a)) ''text'' \<longrightarrow> contains (data (h' ! a)) ''text'')"
  shows "tree_inv h' r"
  unfolding tree_inv_def
proof (intro conjI allI impI)
  show "r < length h'" using assms by (simp add: tree_inv_root)
  show "parent (h' ! r) = None" using assms(3) [of r] assms(1) by (simp add: tree_inv_root)
next
  fix a assume a: "r < a \<and> a < length h'"
  then show "\<exists>p. parent (h' ! a) = Some p \<and> r \<le> p \<and> p < a"
    using tree_inv_parent [OF assms(1), of a] assms(2) assms(3) [of a] by simp
next
  fix p assume p: "r \<le> p \<and> p < length h'"
  then show "distinct (map fst (children (h' ! p)))"
    using tree_inv_distinct [OF assms(1), of p] assms(2) assms(3) [of p] by simp
  show "\<forall>(k, c)\<in>set (children (h' ! p)). p < c \<and> c < length h' \<and> parent (h' ! c) = Some p \<and> slug (h' ! c) = k"
  proof (clarify)
    fix k c assume kc: "(k, c) \<in> set (children (h' ! p))"
    with p assms(2) assms(3) [of p] have "(k, c) \<in> set (children (h ! p))" by simp
    from tree_inv_child [OF assms(1) _ _ this] p assms(2) have *: "p < c" "c < length h" "parent (h ! c) = Some p" "slug (h ! c) = k"
      by simp_all
    with assms(3) [of c] assms(2) show "p < c \<and> c < length h' \<and> parent (h' ! c) = Some p \<and> slug (h' ! c) = k"
      by simp
  qed
next
  fix a assume "r \<le> a \<and> a < length h'"
  then show "contains (data (h' ! a)) ''text''"
    using tree_inv_text [OF assms(1), of a] assms(2) assms(3) [of a] by simp
qed

subsection \<open>Steps of the scan\<close>

lemma node_from_frame:
  "tree_inv h r \<Longrightarrow> r \<le> n \<Longrightarrow> n < length h \<Longrightarrow> node_from h n ps = Some d \<Longrightarrow>
   (\<And>a. a < d \<Longrightarrow> children (h' ! a) = children (h ! a)) \<Longrightarrow> node_from h' n ps = Some d"
proof (induction ps arbitrary: n)
  case Nil
  then show ?case by simp
next
  case (Cons s ps)
  from Cons.prems(4) obtain c where c: "map_of (children (h ! n)) s = Some c" and rest: "node_from h c ps = Some d"
    by (auto split: option.splits)
  from tree_inv_lookup [OF Cons.prems(1-3) c] have cb: "n < c" "c < length h" by simp_all
  from node_from_bounds [OF Cons.prems(1) _ cb(2) rest] Cons.prems(2) cb have "c \<le> d" by simp
  with cb have "n < d" by simp
  then have "children (h' ! n) = children (h ! n)" by (rule Cons.prems(5))
  moreover have "node_from h' c ps = Some d"
    using Cons.IH [OF Cons.prems(1) _ cb(2) rest Cons.prems(5)] Cons.prems(2) cb by simp
  ultimately show ?case using c by simp
qed

lemma reach_frame:
  assumes "tree_inv h r" and "d \<in> reach h r" and "\<And>a. a < d \<Longrightarrow> children (h' ! a) = children (h ! a)"
  shows "d \<in> reach h' r"
proof -
  from assms(2) obtain ps where "node_from h r ps = Some d" by (auto simp: reach_def)
  from node_from_frame [OF assms(1) _ _ this assms(3)] assms(1) have "node_from h' r ps = Some d"
    by (simp add: tree_inv_root)
  then show ?thesis by (auto simp: reach_def)
qed

lemma readyD:
  assumes "ready h r d b"
  shows "tree_inv h r" "d \<in> reach h r" "d < b" "b \<le> length h" "r \<le> d" "d < length h"
    "\<And>k c. (k, c) \<in> set (children (h ! d)) \<Longrightarrow> b \<le> c"
  using assms reach_bounds [of h r d] by (auto simp: ready_def)

lemma in_set_update:
  "distinct (map fst al) \<Longrightarrow> (k', v') \<in> set (AList.update k v al) \<Longrightarrow>
   (k' = k \<and> v' = v) \<or> ((k', v') \<in> set al \<and> k' \<noteq> k)"
proof -
  assume d: "distinct (map fst al)" and m: "(k', v') \<in> set (AList.update k v al)"
  from d have "distinct (map fst (AList.update k v al))" by (rule distinct_update)
  with m have "map_of (AList.update k v al) k' = Some v'" by simp
  then have "((map_of al)(k \<mapsto> v)) k' = Some v'" by (simp add: update_conv')
  then show ?thesis by (auto split: if_splits dest: map_of_SomeD)
qed

lemma contains_update [simp]: "contains (AList.update k v d) k' \<longleftrightarrow> k' = k \<or> contains d k'"
  by (simp add: contains_def update_conv')

lemma contains_dict_update [simp]:
  "contains (fold (case_prod AList.update) meta d) k \<longleftrightarrow> k \<in> fst ` set meta \<or> contains d k"
  by (induction meta arbitrary: d) auto

lemma step_ok_refl: "ready h r d b \<Longrightarrow> step_ok h h r d b"
  by (simp add: step_ok_def)

lemma step_ok_trans: "step_ok h h1 r d b \<Longrightarrow> step_ok h1 h2 r d b \<Longrightarrow> step_ok h h2 r d b"
  by (auto simp: step_ok_def)

lemma step_ok_data:
  assumes rd: "ready h r d b" and a: "a < length h" "a = d \<or> b \<le> a"
    and f: "parent (f (h ! a)) = parent (h ! a)" "slug (f (h ! a)) = slug (h ! a)"
      "children (f (h ! a)) = children (h ! a)"
      "contains (data (h ! a)) ''text'' \<Longrightarrow> contains (data (f (h ! a))) ''text''"
  shows "step_ok h (upd h a f) r d b"
proof -
  let ?h = "upd h a f"
  have same: "parent (?h ! x) = parent (h ! x) \<and> slug (?h ! x) = slug (h ! x)
            \<and> children (?h ! x) = children (h ! x)
            \<and> (contains (data (h ! x)) ''text'' \<longrightarrow> contains (data (?h ! x)) ''text'')" for x
    using a f by (cases "x = a") simp_all
  have inv: "tree_inv ?h r"
    by (rule tree_inv_same_shape [OF readyD(1) [OF rd]]) (simp_all add: same)
  have "d \<in> reach ?h r"
    by (rule reach_frame [OF readyD(1,2) [OF rd]]) (simp add: same)
  then have "ready ?h r d b"
    using inv readyD [OF rd] same [of d] by (auto simp: ready_def)
  moreover have "\<forall>x. x < b \<and> x \<noteq> d \<longrightarrow> ?h ! x = h ! x"
    using a by auto
  ultimately show ?thesis using same [of d] by (simp add: step_ok_def)
qed

lemma contains_new_node [simp]: "contains (data new_node) ''text''"
  by (simp add: new_node_def contains_def)

lemma new_node_fields [simp]: "parent new_node = None" "children new_node = []"
  by (simp_all add: new_node_def)

lemma step_ok_link:
  fixes slg s :: string
  assumes rd: "ready h r d b"
  defines "h' \<equiv> upd (upd (h @ [new_node]) (length h) (\<lambda>n. n\<lparr>slug := slg, stem := s, parent := Some d\<rparr>)) d
                 (\<lambda>n. n\<lparr>children := AList.update slg (length h) (children n)\<rparr>)"
  shows "step_ok h h' r d b"
proof -
  note r = readyD [OF rd]
  let ?c = "length h"
  have len: "length h' = Suc ?c" by (simp add: h'_def)
  have at_c: "h' ! ?c = new_node\<lparr>slug := slg, stem := s, parent := Some d\<rparr>"
    using r(6) by (simp add: h'_def)
  have at_d: "h' ! d = (h ! d)\<lparr>children := AList.update slg ?c (children (h ! d))\<rparr>"
    using r(6) by (simp add: h'_def nth_append)
  have other: "h' ! x = h ! x" if "x < ?c" "x \<noteq> d" for x
    using that by (simp add: h'_def nth_append)
  have ps: "parent (h' ! x) = parent (h ! x) \<and> slug (h' ! x) = slug (h ! x) \<and> data (h' ! x) = data (h ! x)" if "x < ?c" for x
    using that other [of x] at_d by (cases "x = d") simp_all
  have ch: "children (h' ! x) = children (h ! x)" if "x < ?c" "x \<noteq> d" for x
    using that other [of x] by simp
  have inv: "tree_inv h' r"
    unfolding tree_inv_def
  proof (intro conjI allI impI)
    show "r < length h'" using r(5,6) len by simp
    show "parent (h' ! r) = None" using ps [of r] r(5,6) tree_inv_root [OF r(1)] by simp
  next
    fix a assume a: "r < a \<and> a < length h'"
    show "\<exists>p. parent (h' ! a) = Some p \<and> r \<le> p \<and> p < a"
    proof (cases "a = ?c")
      case True
      then show ?thesis using at_c r(5,6) by simp
    next
      case False
      with a len have "a < ?c" by simp
      with a tree_inv_parent [OF r(1), of a] ps [of a] show ?thesis by simp
    qed
  next
    fix p assume p: "r \<le> p \<and> p < length h'"
    consider "p = ?c" | "p = d" | "p < ?c" "p \<noteq> d" using p len by fastforce
    then show "distinct (map fst (children (h' ! p)))"
    proof cases
      case 1 then show ?thesis using at_c by simp
    next
      case 2 then show ?thesis using at_d tree_inv_distinct [OF r(1) r(5,6)] by (simp add: distinct_update)
    next
      case 3 then show ?thesis using ch [of p] tree_inv_distinct [OF r(1), of p] p by simp
    qed
    show "\<forall>(k, c)\<in>set (children (h' ! p)). p < c \<and> c < length h' \<and> parent (h' ! c) = Some p \<and> slug (h' ! c) = k"
    proof clarify
      fix k c assume kc: "(k, c) \<in> set (children (h' ! p))"
      consider "p = ?c" | "p = d" | "p < ?c" "p \<noteq> d" using p len by fastforce
      then show "p < c \<and> c < length h' \<and> parent (h' ! c) = Some p \<and> slug (h' ! c) = k"
      proof cases
        case 1 with kc at_c show ?thesis by simp
      next
        case 2
        with kc at_d have "(k, c) \<in> set (AList.update slg ?c (children (h ! d)))" by simp
        from in_set_update [OF tree_inv_distinct [OF r(1) r(5,6)] this]
        show ?thesis
        proof
          assume "k = slg \<and> c = ?c"
          then show ?thesis using 2 at_c r(6) len by simp
        next
          assume "(k, c) \<in> set (children (h ! d)) \<and> k \<noteq> slg"
          then have "(k, c) \<in> set (children (h ! d))" by simp
          from tree_inv_child [OF r(1) r(5,6) this] have *: "d < c" "c < ?c" "parent (h ! c) = Some d" "slug (h ! c) = k"
            by simp_all
          then show ?thesis using 2 ps [of c] len by simp
        qed
      next
        case 3
        with kc ch [of p] have "(k, c) \<in> set (children (h ! p))" by simp
        from tree_inv_child [OF r(1) _ _ this] p 3 have *: "p < c" "c < ?c" "parent (h ! c) = Some p" "slug (h ! c) = k"
          by simp_all
        then show ?thesis using ps [of c] len by simp
      qed
    qed
  next
    fix a assume a: "r \<le> a \<and> a < length h'"
    show "contains (data (h' ! a)) ''text''"
    proof (cases "a = ?c")
      case True then show ?thesis using at_c by simp
    next
      case False
      with a len have "a < ?c" by simp
      then show ?thesis using ps [of a] tree_inv_text [OF r(1), of a] a by simp
    qed
  qed
  have "d \<in> reach h' r"
    by (rule reach_frame [OF r(1,2)]) (use r(6) ch in simp)
  moreover have "\<forall>(k, c)\<in>set (children (h' ! d)). b \<le> c"
  proof clarify
    fix k c assume "(k, c) \<in> set (children (h' ! d))"
    with at_d have "(k, c) \<in> set (AList.update slg ?c (children (h ! d)))" by simp
    from in_set_update [OF tree_inv_distinct [OF r(1) r(5,6)] this] r(4) r(7) [of k c]
    show "b \<le> c" by auto
  qed
  ultimately have "ready h' r d b"
    using inv r len by (simp add: ready_def)
  moreover have "\<forall>x. x < b \<and> x \<noteq> d \<longrightarrow> h' ! x = h ! x"
    using other r(4) by simp
  ultimately show ?thesis
    using len ps [of d] r(6) by (simp add: step_ok_def)
qed

subsection \<open>Files\<close>

lemma upd_id: "f (h ! a) = h ! a \<Longrightarrow> upd h a f = h"
  by (simp add: upd_def)

lemma parse_node_file_other:
  assumes "slugify env fstem \<noteq> ''index''" and "path h d = Some ps"
    and "node_from h r (ps @ [slugify env fstem]) = found"
  shows "parse_node_file env r h d fstem fsuffix content =
     (let slg = slugify env fstem;
          c = (case found of Some n \<Rightarrow> n | None \<Rightarrow> length h);
          h1 = (case found of Some n \<Rightarrow> h | None \<Rightarrow> h @ [new_node]);
          h3 = upd (upd h1 c (\<lambda>n. n\<lparr>slug := slg, stem := fstem, parent := Some d\<rparr>)) d
                 (\<lambda>n. n\<lparr>children := AList.update slg c (children n)\<rparr>)
      in case content of
           None \<Rightarrow> Some (Raises LoadError h3)
         | Some (text, meta) \<Rightarrow>
             Some (Returns () (upd h3 c (\<lambda>n. n\<lparr>data := fold (case_prod AList.update) meta
                                                    (AList.update ''text'' text (data n)), ext := fsuffix\<rparr>))))"
  using assms by (simp add: parse_node_file_def Let_def upd_upd split: option.splits prod.splits)

lemma ready_lookup:
  assumes "ready h r d b"
  shows "\<exists>ps. path h d = Some ps \<and> node_from h r (ps @ [s]) = map_of (children (h ! d)) s"
proof -
  from readyD(2) [OF assms] obtain ps where ps: "node_from h r ps = Some d" by (auto simp: reach_def)
  from path_node_from [OF readyD(1) [OF assms] ps] have "path h d = Some ps" .
  moreover have "node_from h r (ps @ [s]) = map_of (children (h ! d)) s"
    using ps by (simp add: node_from_append split: option.splits)
  ultimately show ?thesis by blast
qed

lemma step_ok_ready: "step_ok h h' r d b \<Longrightarrow> ready h' r d b"
  by (simp add: step_ok_def)

lemma step_ok_load:
  assumes "ready h r d b" and "c < length h" and "c = d \<or> b \<le> c"
  shows "step_ok h (upd h c (\<lambda>n. n\<lparr>data := fold (case_prod AList.update) meta
                                      (AList.update ''text'' text (data n)), ext := fsuffix\<rparr>)) r d b"
  by (rule step_ok_data [OF assms]) simp_all

lemma parse_node_file_ready:
  assumes rd: "ready h r d b"
  shows "\<exists>out. parse_node_file env r h d fstem fsuffix content = Some out \<and> step_ok h (store_of out) r d b"
proof (cases "slugify env fstem = ''index''")
  case True
  show ?thesis
  proof (cases content)
    case None
    then show ?thesis using True rd by (simp add: parse_node_file_index_raise step_ok_refl)
  next
    case (Some tm)
    obtain tx meta where "tm = (tx, meta)" by (cases tm)
    with Some True show ?thesis
      using step_ok_load [OF rd readyD(6) [OF rd]]
      by (simp add: parse_node_file_index_eq)
  qed
next
  case False
  let ?slg = "slugify env fstem"
  note r = readyD [OF rd]
  from ready_lookup [OF rd, of ?slg] obtain ps where ps: "path h d = Some ps"
    and look: "node_from h r (ps @ [?slg]) = map_of (children (h ! d)) ?slg" by blast
  note eq = parse_node_file_other [OF False ps look, of fsuffix content]
  show ?thesis
  proof (cases "map_of (children (h ! d)) ?slg")
    case None
    let ?h3 = "upd (upd (h @ [new_node]) (length h) (\<lambda>n. n\<lparr>slug := ?slg, stem := fstem, parent := Some d\<rparr>)) d
                 (\<lambda>n. n\<lparr>children := AList.update ?slg (length h) (children n)\<rparr>)"
    have s3: "step_ok h ?h3 r d b" by (rule step_ok_link [OF rd])
    show ?thesis
    proof (cases content)
      case cn: None
      with eq None s3 show ?thesis by (simp add: Let_def)
    next
      case (Some tm)
      obtain tx meta where tm: "tm = (tx, meta)" by (cases tm)
      have "step_ok ?h3 (upd ?h3 (length h) (\<lambda>n. n\<lparr>data := fold (case_prod AList.update) meta
                                      (AList.update ''text'' tx (data n)), ext := fsuffix\<rparr>)) r d b"
        by (rule step_ok_load [OF step_ok_ready [OF s3]]) (use r(4) in simp_all)
      from step_ok_trans [OF s3 this] eq None Some tm show ?thesis by (simp add: Let_def)
    qed
  next
    case (Some c)
    from tree_inv_lookup [OF r(1) r(5,6) Some] have c: "d < c" "c < length h" "parent (h ! c) = Some d" "slug (h ! c) = ?slg"
      by simp_all
    from r(7) [of ?slg c] Some have cb: "b \<le> c" by (simp add: map_of_SomeD)
    let ?h2 = "upd h c (\<lambda>n. n\<lparr>slug := ?slg, stem := fstem, parent := Some d\<rparr>)"
    have "upd ?h2 d (\<lambda>n. n\<lparr>children := AList.update ?slg c (children n)\<rparr>) = ?h2"
      using c Some by (intro upd_id) (simp add: update_triv)
    then have eq': "parse_node_file env r h d fstem fsuffix content =
        (case content of None \<Rightarrow> Some (Raises LoadError ?h2)
         | Some (text, meta) \<Rightarrow> Some (Returns () (upd ?h2 c (\<lambda>n. n\<lparr>data := fold (case_prod AList.update) meta
                                                    (AList.update ''text'' text (data n)), ext := fsuffix\<rparr>))))"
      using eq Some by (simp add: Let_def split: option.splits prod.splits)
    have s2: "step_ok h ?h2 r d b"
      by (rule step_ok_data [OF rd c(2)]) (use c cb in simp_all)
    show ?thesis
    proof (cases content)
      case None
      with eq' s2 show ?thesis by simp
    next
      case sm: (Some tm)
      obtain tx meta where tm: "tm = (tx, meta)" by (cases tm)
      have "step_ok ?h2 (upd ?h2 c (\<lambda>n. n\<lparr>data := fold (case_prod AList.update) meta
                                      (AList.update ''text'' tx (data n)), ext := fsuffix\<rparr>)) r d b"
        by (rule step_ok_load [OF step_ok_ready [OF s2]]) (use c cb in simp_all)
      from step_ok_trans [OF s2 this] eq' sm tm show ?thesis by simp
    qed
  qed
qed

lemma parse_files_ready:
  "ready h r d b \<Longrightarrow> \<exists>out. parse_files env r h d es = Some out \<and> step_ok h (store_of out) r d b"
proof (induction es arbitrary: h)
  case Nil
  then show ?case by (simp add: step_ok_refl)
next
  case (Cons e es)
  show ?case
  proof (cases e)
    case (SubDir s l)
    with Cons show ?thesis by simp
  next
    case Special
    with Cons show ?thesis by simp
  next
    case (RegFile fstem fsuffix content)
    show ?thesis
    proof (cases "take 1 fstem = ''.'' \<or> fsuffix \<notin> set (callbacks env)")
      case True
      with RegFile Cons show ?thesis by auto
    next
      case False
      from parse_node_file_ready [OF Cons.prems, of env fstem fsuffix content] obtain out
        where out: "parse_node_file env r h d fstem fsuffix content = Some out"
          and ok: "step_ok h (store_of out) r d b" by blast
      show ?thesis
      proof (cases out)
        case (Raises e h')
        with out ok RegFile False show ?thesis by simp
      next
        case (Returns u h')
        with ok have ok': "step_ok h h' r d b" by simp
        from Cons.IH [OF step_ok_ready [OF ok']] obtain out' where
          "parse_files env r h' d es = Some out'" "step_ok h' (store_of out') r d b" by blast
        with step_ok_trans [OF ok'] out Returns RegFile False show ?thesis by simp
      qed
    qed
  qed
qed

subsection \<open>Directories\<close>

lemma ready_child:
  fixes slg s :: string
  assumes rd: "ready h r d b"
  defines "h3 \<equiv> upd (upd (h @ [new_node]) (length h) (\<lambda>n. n\<lparr>slug := slg, stem := s, parent := Some d\<rparr>)) d
                 (\<lambda>n. n\<lparr>children := AList.update slg (length h) (children n)\<rparr>)"
  shows "ready h3 r (length h) (Suc (length h))"
proof -
  have ok: "step_ok h h3 r d b" unfolding h3_def by (rule step_ok_link [OF rd])
  note r3 = readyD [OF step_ok_ready [OF ok]]
  have d: "d < length h" by (rule readyD(6) [OF rd])
  from r3(2) obtain ps where ps: "node_from h3 r ps = Some d" by (auto simp: reach_def)
  have "map_of (children (h3 ! d)) slg = Some (length h)"
    using d by (simp add: h3_def nth_append update_conv')
  with ps have "node_from h3 r (ps @ [slg]) = Some (length h)"
    by (simp add: node_from_append)
  then have "length h \<in> reach h3 r" by (auto simp: reach_def)
  moreover have "children (h3 ! length h) = []"
    using d by (simp add: h3_def)
  moreover have "length h3 = Suc (length h)" by (simp add: h3_def)
  ultimately show ?thesis using r3(1) by (simp add: ready_def)
qed

lemma step_ok_child:
  assumes rd: "ready h3 r d b" and ok: "step_ok h3 h4 r c (Suc c)" and dc: "d < c" "b \<le> c"
  shows "step_ok h3 h4 r d b"
proof -
  from ok have inv: "tree_inv h4 r" and len: "length h3 \<le> length h4"
    and same: "\<And>a. a < Suc c \<Longrightarrow> a \<noteq> c \<Longrightarrow> h4 ! a = h3 ! a"
    by (auto simp: step_ok_def ready_def)
  note r = readyD [OF rd]
  have "d \<in> reach h4 r"
    by (rule reach_frame [OF r(1,2)]) (use same dc in simp)
  moreover have "h4 ! d = h3 ! d" using same [of d] dc by simp
  ultimately have "ready h4 r d b"
    using inv r len by (auto simp: ready_def)
  moreover have "\<forall>a. a < b \<and> a \<noteq> d \<longrightarrow> h4 ! a = h3 ! a"
    using same dc by simp
  ultimately show ?thesis using len \<open>h4 ! d = h3 ! d\<close> by (simp add: step_ok_def)
qed

lemma builder_ready:
  "ready h r d b \<Longrightarrow>
     \<exists>out. parse_node_directory env r h d listing = Some out \<and> step_ok h (store_of out) r d b"
  "ready h r d b \<Longrightarrow>
     \<exists>out. parse_subdirs env r h d es = Some out \<and> step_ok h (store_of out) r d b"
proof (induction env r h d listing and env r h d es arbitrary: b and b
       rule: parse_node_directory_parse_subdirs.induct)
  case (1 env r h dirnode)
  then show ?case by (simp add: step_ok_refl)
next
  case (2 env r h dirnode es)
  from "2.IH" [OF "2.prems"] obtain out where out: "parse_subdirs env r h dirnode es = Some out"
    and ok: "step_ok h (store_of out) r dirnode b" by blast
  show ?case
  proof (cases out)
    case (Raises e h')
    with out ok show ?thesis by simp
  next
    case (Returns u h')
    with ok have ok': "step_ok h h' r dirnode b" by simp
    from parse_files_ready [OF step_ok_ready [OF ok'], of env es] obtain out' where
      "parse_files env r h' dirnode es = Some out'" "step_ok h' (store_of out') r dirnode b" by blast
    with step_ok_trans [OF ok'] out Returns show ?thesis by simp
  qed
next
  case (3 env r h dirnode)
  then show ?case by (simp add: step_ok_refl)
next
  case (4 env r h dirnode dstem listing es)
  let ?slg = "slugify env dstem"
  let ?c = "length h"
  let ?h3 = "upd (upd (h @ [new_node]) ?c (\<lambda>n. n\<lparr>slug := ?slg, stem := dstem, parent := Some dirnode\<rparr>)) dirnode
                 (\<lambda>n. n\<lparr>children := AList.update ?slg ?c (children n)\<rparr>)"
  note r = readyD [OF "4.prems"]
  have s3: "step_ok h ?h3 r dirnode b" by (rule step_ok_link [OF "4.prems"])
  have rc: "ready ?h3 r ?c (Suc ?c)" by (rule ready_child [OF "4.prems"])
  from "4.IH"(1) [OF refl refl refl refl refl rc] obtain out where
    out: "parse_node_directory env r ?h3 ?c listing = Some out"
    and ok: "step_ok ?h3 (store_of out) r ?c (Suc ?c)" by blast
  have s4: "step_ok h (store_of out) r dirnode b"
    by (rule step_ok_trans [OF s3 step_ok_child [OF step_ok_ready [OF s3] ok]]) (use r in simp_all)
  show ?case
  proof (cases out)
    case (Raises e h')
    with out s4 show ?thesis by (simp add: Let_def)
  next
    case (Returns u h')
    with s4 have s4': "step_ok h h' r dirnode b" by simp
    from "4.IH"(2) [OF refl refl refl refl refl _ _ step_ok_ready [OF s4']] out Returns
    obtain out' where "parse_subdirs env r h' dirnode es = Some out'"
      "step_ok h' (store_of out') r dirnode b" by blast
    with step_ok_trans [OF s4'] out Returns show ?thesis by (simp add: Let_def)
  qed
next
  case (5 env r h dirnode s x c es)
  then show ?case by simp
next
  case (6 env r h dirnode es)
  then show ?case by simp
qed

subsection \<open>Initialisation keeps the shape\<close>

lemma same_shape_refl: "same_shape h h"
  by (simp add: same_shape_def)

lemma same_shape_trans: "same_shape h h1 \<Longrightarrow> same_shape h1 h2 \<Longrightarrow> same_shape h h2"
  by (simp add: same_shape_def)

lemma same_shape_setitem: "same_shape (heap st) (heap (setitem st a k v))"
proof -
  have "parent (upd h a f ! x) = parent (h ! x) \<and> slug (upd h a f ! x) = slug (h ! x) \<and>
        stem (upd h a f ! x) = stem (h ! x) \<and> ext (upd h a f ! x) = ext (h ! x) \<and>
        children (upd h a f ! x) = children (h ! x) \<and>
        (\<forall>k'. contains (data (h ! x)) k' \<longrightarrow> contains (data (upd h a f ! x)) k')"
    if "x < length h" "f = (\<lambda>n. n\<lparr>data := AList.update k v (data n)\<rparr>)" for h :: heap and x f
    using that by (cases "x = a") simp_all
  then show ?thesis by (simp add: same_shape_def setitem_def)
qed

lemma tree_inv_shape: "tree_inv h r \<Longrightarrow> same_shape h h' \<Longrightarrow> tree_inv h' r"
  by (rule tree_inv_same_shape) (auto simp: same_shape_def)

lemma node_from_shape:
  "tree_inv h r \<Longrightarrow> r \<le> n \<Longrightarrow> n < length h \<Longrightarrow> same_shape h h' \<Longrightarrow> node_from h' n ps = node_from h n ps"
proof (induction ps arbitrary: n)
  case Nil
  then show ?case by simp
next
  case (Cons s ps)
  from Cons.prems have ch: "children (h' ! n) = children (h ! n)" by (simp add: same_shape_def)
  show ?case
  proof (cases "map_of (children (h ! n)) s")
    case None
    with ch show ?thesis by simp
  next
    case (Some c)
    from tree_inv_lookup [OF Cons.prems(1-3) Some] Cons.prems have "r \<le> c" "c < length h" by simp_all
    from Cons.IH [OF Cons.prems(1) this Cons.prems(4)] ch Some show ?thesis by simp
  qed
qed

lemma reach_shape:
  "tree_inv h r \<Longrightarrow> r \<le> n \<Longrightarrow> n < length h \<Longrightarrow> same_shape h h' \<Longrightarrow> reach h' n = reach h n"
  by (simp add: reach_def node_from_shape)

lemma init_frame:
  "init n env st a = Some out \<Longrightarrow>
     cache (store_of out) = cache st \<and> same_shape (heap st) (heap (store_of out)) \<and>
     (\<exists>evs. events (store_of out) = events st @ map (Pair ''init_node'') evs)"
  "init_children n env st cs = Some out' \<Longrightarrow>
     cache (store_of out') = cache st \<and> same_shape (heap st) (heap (store_of out')) \<and>
     (\<exists>evs. events (store_of out') = events st @ map (Pair ''init_node'') evs)"
proof (induction n env st a and n env st cs arbitrary: out and out' rule: init_init_children.induct)
  case (1 env st self)
  then show ?case by simp
next
  case (2 n env st self)
  show ?case
  proof (cases "getitem (data (heap st ! self)) ''text''")
    case (Inl e)
    with "2.prems" show ?thesis by (auto simp: same_shape_refl)
  next
    case (Inr t)
    define st1 where "st1 = setitem st self ''text'' (hfilter env ''node_text'' t (heap st ! self))"
    define st2 where "st2 = setitem st1 self ''html''
        (hfilter env ''node_html'' (render env (hfilter env ''node_text'' t (heap st ! self)) (ext (heap st1 ! self)))
          (heap st1 ! self))"
    have st2: "cache st2 = cache st" "events st2 = events st"
      by (simp_all add: st2_def st1_def setitem_def)
    have sh2: "same_shape (heap st) (heap st2)"
      unfolding st2_def st1_def by (rule same_shape_trans [OF same_shape_setitem same_shape_setitem])
    from "2.prems" Inr obtain o3 where o3: "init_children n env st2 (map snd (children (heap st2 ! self))) = Some o3"
      by (auto simp: Let_def st2_def st1_def split: option.splits)
    have ih: "cache (store_of o3) = cache st2 \<and> same_shape (heap st2) (heap (store_of o3)) \<and>
        (\<exists>evs. events (store_of o3) = events st2 @ map (Pair ''init_node'') evs)"
      using "2.IH" [OF Inr refl refl refl refl o3 [unfolded st2_def st1_def]] o3 by (simp add: st2_def st1_def)
    then obtain evs where evs: "events (store_of o3) = events st @ map (Pair ''init_node'') evs"
      using st2 by auto
    from ih sh2 have sh3: "same_shape (heap st) (heap (store_of o3))" by (blast intro: same_shape_trans)
    show ?thesis
    proof (cases o3)
      case (Returns u st3)
      with "2.prems" Inr o3 have out: "out = Returns self (event ''init_node'' self st3)"
        by (simp add: Let_def st2_def st1_def)
      have "events (event ''init_node'' self st3) = events st @ map (Pair ''init_node'') (evs @ [self])"
        using evs Returns by (simp add: event_def)
      then have "\<exists>evs'. events (event ''init_node'' self st3) = events st @ map (Pair ''init_node'') evs'"
        by (intro exI [of _ "evs @ [self]"])
      moreover have "cache (event ''init_node'' self st3) = cache st"
        using ih st2 Returns by (simp add: event_def)
      moreover have "same_shape (heap st) (heap (event ''init_node'' self st3))"
        using sh3 Returns by (simp add: event_def)
      ultimately show ?thesis using out by simp
    next
      case (Raises e st3)
      with "2.prems" Inr o3 have "out = Raises e st3"
        by (simp add: Let_def st2_def st1_def)
      then show ?thesis using ih st2 Raises evs sh3 by auto
    qed
  qed
next
  case (3 n env st)
  then show ?case by (auto simp: same_shape_refl)
next
  case (4 n env st c cs)
  from "4.prems" obtain o1 where o1: "init n env st c = Some o1"
    by (auto split: option.splits)
  note ih1 = "4.IH"(1) [OF o1]
  show ?case
  proof (cases o1)
    case (Returns u st')
    with "4.prems" o1 have rest: "init_children n env st' cs = Some out'" by simp
    from ih1 Returns obtain evs1 where e1: "events st' = events st @ map (Pair ''init_node'') evs1"
      and c1: "cache st' = cache st" and s1: "same_shape (heap st) (heap st')" by auto
    from "4.IH"(2) [OF o1 Returns rest] obtain evs2 where
      e2: "events (store_of out') = events st' @ map (Pair ''init_node'') evs2"
      and c2: "cache (store_of out') = cache st'"
      and s2: "same_shape (heap st') (heap (store_of out'))" by auto
    have "events (store_of out') = events st @ map (Pair ''init_node'') (evs1 @ evs2)"
      using e1 e2 by simp
    then show ?thesis using c1 c2 same_shape_trans [OF s1 s2]
      by (intro conjI exI [of _ "evs1 @ evs2"]) simp_all
  next
    case (Raises e st')
    with "4.prems" o1 have "out' = Raises e st'" by simp
    with ih1 Raises show ?thesis by auto
  qed
qed

text \<open>
  In a well-formed tree \<open>init\<close> returns, and does not raise, as soon as the fuel exceeds
  the number of objects allocated after the node.
\<close>

lemma init_returns:
  "tree_inv (heap st) r \<Longrightarrow> r \<le> a \<Longrightarrow> a < length (heap st) \<Longrightarrow> length (heap st) - a < n \<Longrightarrow>
     \<exists>st'. init n env st a = Some (Returns a st')"
  "tree_inv (heap st) r \<Longrightarrow> (\<forall>c\<in>set cs. r \<le> c \<and> c < length (heap st) \<and> length (heap st) - c < n) \<Longrightarrow>
     \<exists>st'. init_children n env st cs = Some (Returns () st')"
proof (induction n env st a and n env st cs rule: init_init_children.induct)
  case (1 env st self)
  then show ?case by simp
next
  case (2 n env st self)
  from tree_inv_text [OF "2.prems"(1-3)] obtain t where t: "getitem (data (heap st ! self)) ''text'' = Inr t"
    by (auto simp: contains_def getitem_def)
  define st1 where "st1 = setitem st self ''text'' (hfilter env ''node_text'' t (heap st ! self))"
  define st2 where "st2 = setitem st1 self ''html''
        (hfilter env ''node_html'' (render env (hfilter env ''node_text'' t (heap st ! self)) (ext (heap st1 ! self)))
          (heap st1 ! self))"
  have sh2: "same_shape (heap st) (heap st2)"
    unfolding st2_def st1_def by (rule same_shape_trans [OF same_shape_setitem same_shape_setitem])
  have inv2: "tree_inv (heap st2) r" by (rule tree_inv_shape [OF "2.prems"(1) sh2])
  have len: "length (heap st2) = length (heap st)" using sh2 by (simp add: same_shape_def)
  have ch: "\<forall>c\<in>set (map snd (children (heap st2 ! self))). r \<le> c \<and> c < length (heap st2) \<and> length (heap st2) - c < n"
  proof
    fix c assume "c \<in> set (map snd (children (heap st2 ! self)))"
    then obtain k where "(k, c) \<in> set (children (heap st2 ! self))" by auto
    from tree_inv_child [OF inv2 _ _ this] "2.prems" len have "self < c" "c < length (heap st2)" by simp_all
    with "2.prems" len show "r \<le> c \<and> c < length (heap st2) \<and> length (heap st2) - c < n" by auto
  qed
  have "\<exists>st'. init_children n env st2 (map snd (children (heap st2 ! self))) = Some (Returns () st')"
    using "2.IH" [OF t refl refl refl refl] inv2 ch by (simp add: st2_def st1_def)
  then obtain st3 where "init_children n env st2 (map snd (children (heap st2 ! self))) = Some (Returns () st3)"
    by blast
  then show ?case using t by (simp add: Let_def st2_def st1_def)
next
  case (3 n env st)
  then show ?case by simp
next
  case (4 n env st c cs)
  from "4.IH"(1) [OF "4.prems"(1)] "4.prems"(2) obtain st' where st': "init n env st c = Some (Returns c st')"
    by auto
  from init_frame(1) [OF st'] have sh: "same_shape (heap st) (heap st')" by simp
  then have len: "length (heap st') = length (heap st)" by (simp add: same_shape_def)
  from "4.IH"(2) [OF st' refl tree_inv_shape [OF "4.prems"(1) sh]] "4.prems"(2) len st'
  show ?case by simp
qed

subsection \<open>The first call of root\<close>

lemma demo_root: "root 10 demo_env fresh demo_src = Some (Returns 0 demo_built)"
  by code_simp

lemma broken_root: "root 10 demo_env fresh broken_src = Some (Raises OSError half_built)"
  by code_simp

lemma fresh_root_ready: "ready (h @ [new_node]) (length h) (length h) (Suc (length h))"
proof -
  have "tree_inv (h @ [new_node]) (length h)"
    unfolding tree_inv_def
  proof (intro conjI allI impI)
    fix p assume "length h \<le> p \<and> p < length (h @ [new_node])"
    then have p: "p = length h" by simp
    then show "distinct (map fst (children ((h @ [new_node]) ! p)))" by simp
    from p show "\<forall>(k, c)\<in>set (children ((h @ [new_node]) ! p)).
        p < c \<and> c < length (h @ [new_node]) \<and> parent ((h @ [new_node]) ! c) = Some p \<and> slug ((h @ [new_node]) ! c) = k"
      by simp
  next
    fix a assume "length h \<le> a \<and> a < length (h @ [new_node])"
    then have "a = length h" by simp
    then show "contains (data ((h @ [new_node]) ! a)) ''text''" by simp
  qed auto
  moreover have "node_from (h @ [new_node]) (length h) [] = Some (length h)" by simp
  then have "length h \<in> reach (h @ [new_node]) (length h)" unfolding reach_def by blast
  ultimately show ?thesis by (simp add: ready_def)
qed

lemma root_cached: "cache st = Some c \<Longrightarrow> root fuel env st src = Some (Returns c st)"
  by (simp add: root_def)

lemma root_build:
  "\<exists>bout. parse_node_directory env (length h) (h @ [new_node]) (length h) src = Some bout
      \<and> tree_inv (store_of bout) (length h) \<and> Suc (length h) \<le> length (store_of bout)
      \<and> (\<forall>a<length h. store_of bout ! a = h ! a)"
proof -
  from builder_ready(1) [OF fresh_root_ready, of env h src] obtain bout where
    b: "parse_node_directory env (length h) (h @ [new_node]) (length h) src = Some bout"
    and ok: "step_ok (h @ [new_node]) (store_of bout) (length h) (length h) (Suc (length h))" by blast
  from ok have "tree_inv (store_of bout) (length h)" "Suc (length h) \<le> length (store_of bout)"
    "\<forall>a<length h. store_of bout ! a = h ! a"
    by (auto simp: step_ok_def ready_def nth_append)
  with b show ?thesis by blast
qed

lemma root_first:
  assumes "cache st = None" and "root fuel env st src = Some out"
  shows "cache (store_of out) = Some (length (heap st))"
    and "tree_inv (heap (store_of out)) (length (heap st))"
    and "out = Returns v st' \<Longrightarrow> v = length (heap st)"
proof -
  let ?r = "length (heap st)"
  from root_build [of env "heap st" src] obtain bout where
    b: "parse_node_directory env ?r (heap st @ [new_node]) ?r src = Some bout"
    and inv: "tree_inv (store_of bout) ?r" by blast
  have "cache (store_of out) = Some ?r \<and> tree_inv (heap (store_of out)) ?r \<and> (out = Returns v st' \<longrightarrow> v = ?r)"
  proof (cases bout)
    case (Raises e h1)
    with assms b inv show ?thesis by (auto simp: root_def Let_def)
  next
    case (Returns u h1)
    let ?st1 = "st\<lparr>cache := Some ?r, heap := h1\<rparr>"
    from assms b Returns obtain iout where i: "init fuel env ?st1 ?r = Some iout"
      by (auto simp: root_def Let_def split: option.splits)
    from init_frame(1) [OF i] have c: "cache (store_of iout) = Some ?r"
      and sh: "same_shape h1 (heap (store_of iout))" by simp_all
    from tree_inv_shape [OF _ sh] inv Returns have inv': "tree_inv (heap (store_of iout)) ?r" by simp
    show ?thesis
    proof (cases iout)
      case r2: (Returns n st2)
      with assms b Returns i have "out = Returns ?r (event ''init_tree'' n st2)"
        by (simp add: root_def Let_def)
      with c inv' r2 show ?thesis by (simp add: event_def)
    next
      case r2: (Raises e st2)
      with assms b Returns i have "out = Raises e st2"
        by (simp add: root_def Let_def)
      with c inv' r2 show ?thesis by simp
    qed
  qed
  then show "cache (store_of out) = Some (length (heap st))"
    and "tree_inv (heap (store_of out)) (length (heap st))"
    and "out = Returns v st' \<Longrightarrow> v = length (heap st)" by simp_all
qed

lemma init_returns_self: "init n env st a = Some (Returns v st') \<Longrightarrow> v = a"
  by (cases n) (auto simp: Let_def split: sum.splits option.splits outcome.splits)

lemma root_returns:
  assumes "cache st = None" and "root fuel env st src = Some (Returns v st')"
  shows "\<exists>h1 st2. parse_node_directory env (length (heap st)) (heap st @ [new_node]) (length (heap st)) src
                     = Some (Returns () h1)
           \<and> init fuel env (st\<lparr>cache := Some (length (heap st)), heap := h1\<rparr>) (length (heap st))
                     = Some (Returns (length (heap st)) st2)
           \<and> st' = event ''init_tree'' (length (heap st)) st2 \<and> v = length (heap st)"
  using assms
  by (auto simp: root_def Let_def split: option.splits outcome.splits dest: init_returns_self)

lemma root_raises:
  assumes "cache st = None"
    and "parse_node_directory env (length (heap st)) (heap st @ [new_node]) (length (heap st)) src = Some (Raises e h)"
  shows "root fuel env st src = Some (Raises e (st\<lparr>cache := Some (length (heap st)), heap := h\<rparr>))"
  using assms by (simp add: root_def Let_def)

subsection \<open>Errors during the first call\<close>

text \<open>
  C1 as stated fails. On a source directory whose subdirectory cannot be listed, the
  first \<open>root()\<close> raises, the cache holds the root node allocated before the scan, and
  the second \<open>root()\<close> returns that node: a root with one child that was never scanned
  and never initialised.
\<close>

theorem half_built_tree_is_cached:
  "root 10 demo_env fresh broken_src = Some (Raises OSError half_built)
   \<and> cache half_built = Some 0
   \<and> root 10 demo_env half_built broken_src = Some (Returns 0 half_built)"
  by (simp add: broken_root root_cached half_built_def)

text \<open>
  C1, amended. If the tree builder raises during the first \<open>root()\<close>, the error reaches
  the caller and construction stops there: no event is fired. The root node allocated
  before the scan stays in the cache with whatever the scan attached to it, and every
  later \<open>root()\<close> returns it without scanning or changing anything.
\<close>

theorem scan_error_keeps_partial_tree:
  assumes "cache st = None"
    and "parse_node_directory env (length (heap st)) (heap st @ [new_node]) (length (heap st)) src = Some (Raises e h)"
  shows "root fuel env st src = Some (Raises e (st\<lparr>cache := Some (length (heap st)), heap := h\<rparr>))
       \<and> events (st\<lparr>cache := Some (length (heap st)), heap := h\<rparr>) = events st
       \<and> (\<forall>fuel' env' src'. root fuel' env' (st\<lparr>cache := Some (length (heap st)), heap := h\<rparr>) src'
             = Some (Returns (length (heap st)) (st\<lparr>cache := Some (length (heap st)), heap := h\<rparr>)))"
  using root_raises [OF assms] by (simp add: root_cached)

theorem scan_error_keeps_partial_tree_witness:
  "cache fresh = None
   \<and> parse_node_directory demo_env (length (heap fresh)) (heap fresh @ [new_node]) (length (heap fresh)) broken_src
       = Some (Raises OSError (heap half_built))
   \<and> root 10 demo_env fresh broken_src = Some (Raises OSError half_built)
   \<and> root 3 demo_env half_built demo_src = Some (Returns 0 half_built)"
proof -
  have c: "cache fresh = None" by (simp add: fresh_def)
  have p: "parse_node_directory demo_env (length (heap fresh)) (heap fresh @ [new_node]) (length (heap fresh)) broken_src
       = Some (Raises OSError (heap half_built))" by code_simp
  have s: "fresh\<lparr>cache := Some (length (heap fresh)), heap := heap half_built\<rparr> = half_built"
    by (simp add: fresh_def half_built_def)
  from scan_error_keeps_partial_tree [OF c p, of 10] c p s show ?thesis
    by (simp add: fresh_def)
qed

subsection \<open>Memoisation\<close>

text \<open>
  C6. After a first \<open>root()\<close> that came to an end, the cache holds the node allocated
  by that call; every later call, whatever the source directory has become, returns
  that same node and leaves the state (objects and event log) exactly as it was. When
  the first call returned, it returned that node, and what it added to the event log is
  a run of \<open>init_node\<close> events followed by one \<open>init_tree\<close> event.
\<close>

theorem root_memoizes:
  assumes "cache st = None" and "root fuel env st src = Some out"
  shows "cache (store_of out) = Some (length (heap st))
       \<and> (\<forall>fuel' env' src'. root fuel' env' (store_of out) src' = Some (Returns (length (heap st)) (store_of out)))
       \<and> (\<forall>v st'. out = Returns v st' \<longrightarrow>
            v = length (heap st) \<and>
            (\<exists>evs. events st' = events st @ map (Pair ''init_node'') evs @ [(''init_tree'', v)]))"
proof (intro conjI allI impI)
  show c: "cache (store_of out) = Some (length (heap st))" by (rule root_first(1) [OF assms])
  show "root fuel' env' (store_of out) src' = Some (Returns (length (heap st)) (store_of out))" for fuel' env' src'
    by (rule root_cached [OF c])
next
  fix v st' assume out: "out = Returns v st'"
  with assms root_returns [of st fuel env src v st'] obtain h1 st2 where
    i: "init fuel env (st\<lparr>cache := Some (length (heap st)), heap := h1\<rparr>) (length (heap st))
          = Some (Returns (length (heap st)) st2)"
    and st': "st' = event ''init_tree'' (length (heap st)) st2" and v: "v = length (heap st)" by auto
  from init_frame(1) [OF i] obtain evs where "events st2 = events st @ map (Pair ''init_node'') evs" by auto
  with st' v show "\<exists>evs. events st' = events st @ map (Pair ''init_node'') evs @ [(''init_tree'', v)]"
    by (auto simp: event_def)
  from v show "v = length (heap st)" .
qed

theorem root_memoizes_witness:
  "cache fresh = None \<and> root 10 demo_env fresh demo_src = Some (Returns 0 demo_built)
   \<and> cache demo_built = Some 0
   \<and> root 10 demo_env demo_built demo_src = Some (Returns 0 demo_built)
   \<and> root 0 demo_env demo_built broken_src = Some (Returns 0 demo_built)
   \<and> (\<exists>evs. events demo_built = events fresh @ map (Pair ''init_node'') evs @ [(''init_tree'', 0)])"
proof -
  have c: "cache fresh = None" by (simp add: fresh_def)
  from root_memoizes [OF c demo_root] c demo_root show ?thesis by (simp add: fresh_def)
qed

subsection \<open>Well-formedness of the built tree\<close>

lemma node_from_strict:
  assumes "tree_inv h r" and "r \<le> n" and "n < length h" and "node_from h n (s # ps) = Some a"
  shows "n < a"
proof -
  from assms(4) obtain c where c: "map_of (children (h ! n)) s = Some c" and rest: "node_from h c ps = Some a"
    by (auto split: option.splits)
  from tree_inv_lookup [OF assms(1-3) c] have "n < c" "c < length h" by simp_all
  with node_from_bounds [OF assms(1) _ _ rest] assms(2) show ?thesis by simp
qed

lemma node_from_snoc_parent:
  assumes "tree_inv h r" and "node_from h r ps = Some a" and "ps \<noteq> []"
  shows "\<exists>m\<in>reach h r. parent (h ! a) = Some m \<and> map_of (children (h ! m)) (slug (h ! a)) = Some a"
proof -
  from assms(3) obtain qs s where ps: "ps = qs @ [s]" by (cases ps rule: rev_cases) auto
  with assms(2) obtain m where m: "node_from h r qs = Some m" and c: "map_of (children (h ! m)) s = Some a"
    by (auto simp: node_from_append split: option.splits)
  from m have mr: "m \<in> reach h r" by (auto simp: reach_def)
  from reach_bounds [OF assms(1) mr] tree_inv_lookup [OF assms(1) _ _ c]
  have "parent (h ! a) = Some m" "slug (h ! a) = s" by simp_all
  with c mr show ?thesis by auto
qed

text \<open>
  C8. In the store a first \<open>root()\<close> leaves behind (whether it returned or raised), for
  the nodes of the tree, that is, the nodes the lookup reaches from the root: the keys of
  a \<open>children\<close> dictionary are distinct and each is the slug of its child, so the slugs
  of siblings are pairwise distinct; the root is the one node without a parent; every
  other node has a parent in the tree whose \<open>children\<close> hold it under its own slug; no
  node is a child of two nodes; and no non-empty path leads from a node back to itself.
\<close>

theorem built_tree_well_formed:
  assumes "cache st = None" and "root fuel env st src = Some out"
  defines "h \<equiv> heap (store_of out)" and "r \<equiv> length (heap st)"
  shows "(\<forall>p\<in>reach h r. distinct (map fst (children (h ! p)))
                      \<and> (\<forall>(k, c)\<in>set (children (h ! p)). slug (h ! c) = k)
                      \<and> distinct (map (\<lambda>kc. slug (h ! snd kc)) (children (h ! p))))
       \<and> (\<forall>a\<in>reach h r. (parent (h ! a) = None) = (a = r))
       \<and> (\<forall>a\<in>reach h r. a \<noteq> r \<longrightarrow>
            (\<exists>p\<in>reach h r. parent (h ! a) = Some p \<and> map_of (children (h ! p)) (slug (h ! a)) = Some a))
       \<and> (\<forall>p\<in>reach h r. \<forall>q\<in>reach h r. \<forall>c.
            c \<in> snd ` set (children (h ! p)) \<and> c \<in> snd ` set (children (h ! q)) \<longrightarrow> p = q)
       \<and> (\<forall>a\<in>reach h r. \<forall>ps. ps \<noteq> [] \<longrightarrow> node_from h a ps \<noteq> Some a)"
proof -
  have inv: "tree_inv h r" unfolding h_def r_def by (rule root_first(2) [OF assms(1,2)])
  note rb = reach_bounds [OF inv]
  have 1: "distinct (map fst (children (h ! p))) \<and> (\<forall>(k, c)\<in>set (children (h ! p)). slug (h ! c) = k)
           \<and> distinct (map (\<lambda>kc. slug (h ! snd kc)) (children (h ! p)))" if "p \<in> reach h r" for p
  proof -
    from rb [OF that] have p: "r \<le> p" "p < length h" by simp_all
    have d: "distinct (map fst (children (h ! p)))" by (rule tree_inv_distinct [OF inv p])
    have s: "\<forall>(k, c)\<in>set (children (h ! p)). slug (h ! c) = k"
      using tree_inv_child [OF inv p] by auto
    then have eq: "map (\<lambda>kc. slug (h ! snd kc)) (children (h ! p)) = map fst (children (h ! p))"
      by (intro map_cong) auto
    show ?thesis unfolding eq using d s by simp
  qed
  have 2: "(parent (h ! a) = None) = (a = r)" if "a \<in> reach h r" for a
  proof (cases "a = r")
    case True
    then show ?thesis using tree_inv_root [OF inv] by simp
  next
    case False
    with rb [OF that] tree_inv_parent [OF inv, of a] show ?thesis by auto
  qed
  have 3: "\<exists>p\<in>reach h r. parent (h ! a) = Some p \<and> map_of (children (h ! p)) (slug (h ! a)) = Some a"
    if "a \<in> reach h r" "a \<noteq> r" for a
  proof -
    from that(1) obtain ps where ps: "node_from h r ps = Some a" by (auto simp: reach_def)
    with that(2) have "ps \<noteq> []" by auto
    from node_from_snoc_parent [OF inv ps this] show ?thesis .
  qed
  have 4: "p = q" if "p \<in> reach h r" "q \<in> reach h r"
    "c \<in> snd ` set (children (h ! p)) \<and> c \<in> snd ` set (children (h ! q))" for p q c
  proof -
    from that(3) obtain k k' where "(k, c) \<in> set (children (h ! p))" "(k', c) \<in> set (children (h ! q))"
      by auto
    with tree_inv_child [OF inv _ _ this(1)] tree_inv_child [OF inv _ _ this(2)] rb [OF that(1)] rb [OF that(2)]
    show ?thesis by simp
  qed
  have 5: "node_from h a ps \<noteq> Some a" if "a \<in> reach h r" "ps \<noteq> []" for a ps
  proof
    assume eq: "node_from h a ps = Some a"
    from that(2) obtain s qs where "ps = s # qs" by (cases ps) auto
    with node_from_strict [OF inv _ _ eq [unfolded this]] rb [OF that(1)] show False by simp
  qed
  have A: "\<forall>p\<in>reach h r. distinct (map fst (children (h ! p)))
                      \<and> (\<forall>(k, c)\<in>set (children (h ! p)). slug (h ! c) = k)
                      \<and> distinct (map (\<lambda>kc. slug (h ! snd kc)) (children (h ! p)))"
    by (intro ballI) (rule 1)
  have B: "\<forall>a\<in>reach h r. (parent (h ! a) = None) = (a = r)"
    by (intro ballI) (rule 2)
  have C: "\<forall>a\<in>reach h r. a \<noteq> r \<longrightarrow>
            (\<exists>p\<in>reach h r. parent (h ! a) = Some p \<and> map_of (children (h ! p)) (slug (h ! a)) = Some a)"
    by (intro ballI impI) (rule 3, assumption+)
  have D: "\<forall>p\<in>reach h r. \<forall>q\<in>reach h r. \<forall>c.
            c \<in> snd ` set (children (h ! p)) \<and> c \<in> snd ` set (children (h ! q)) \<longrightarrow> p = q"
    by (intro ballI allI impI) (rule 4, assumption+)
  have E: "\<forall>a\<in>reach h r. \<forall>ps. ps \<noteq> [] \<longrightarrow> node_from h a ps \<noteq> Some a"
    by (intro ballI allI impI) (rule 5, assumption+)
  show ?thesis by (intro conjI A B C D E)
qed

theorem built_tree_well_formed_witness:
  "cache fresh = None \<and> root 10 demo_env fresh demo_src = Some (Returns 0 demo_built)
   \<and> 2 \<in> reach (heap demo_built) 0
   \<and> distinct (map fst (children (heap demo_built ! 2)))
   \<and> parent (heap demo_built ! 2) \<noteq> None \<and> parent (heap demo_built ! 0) = None
   \<and> (\<exists>p\<in>reach (heap demo_built) 0. parent (heap demo_built ! 2) = Some p
         \<and> map_of (children (heap demo_built ! p)) (slug (heap demo_built ! 2)) = Some 2)
   \<and> node_from (heap demo_built) 2 [''post''] \<noteq> Some 2"
proof -
  have c: "cache fresh = None" by (simp add: fresh_def)
  have "node_from (heap demo_built) 0 [''blog'', ''2023''] = Some 2" by (simp add: demo_built_def)
  then have m: "2 \<in> reach (heap demo_built) 0" unfolding reach_def by blast
  have z: "0 \<in> reach (heap demo_built) 0" unfolding reach_def by (auto intro: exI [of _ "[]"])
  have len: "length (heap fresh) = 0" by (simp add: fresh_def)
  note T = built_tree_well_formed [OF c demo_root, unfolded len store_of.simps]
  note A = bspec [OF T [THEN conjunct1] m]
  note B = bspec [OF T [THEN conjunct2, THEN conjunct1] m]
  note B0 = bspec [OF T [THEN conjunct2, THEN conjunct1] z]
  note C = bspec [OF T [THEN conjunct2, THEN conjunct2, THEN conjunct1] m]
  note E = bspec [OF T [THEN conjunct2, THEN conjunct2, THEN conjunct2, THEN conjunct2] m, THEN spec, of "[''post'']"]
  have "distinct (map fst (children (heap demo_built ! 2)))" using A by (rule conjunct1)
  moreover have "parent (heap demo_built ! 2) \<noteq> None" using B by simp
  moreover have "parent (heap demo_built ! 0) = None" using B0 by simp
  moreover have "\<exists>p\<in>reach (heap demo_built) 0. parent (heap demo_built ! 2) = Some p
         \<and> map_of (children (heap demo_built ! p)) (slug (heap demo_built ! 2)) = Some 2"
    by (rule mp [OF C]) simp
  moreover have "node_from (heap demo_built) 2 [''post''] \<noteq> Some 2"
    by (rule mp [OF E]) simp
  ultimately show ?thesis using c demo_root m by (intro conjI)
qed

subsection \<open>Paths and urls\<close>

lemma sorting_root: "root 10 demo_env fresh sorting_src = Some (Returns 0 sorting_built)"
  by code_simp



subsection \<open>Inherited attributes\<close>

lemma getitem_contains: "contains d k \<Longrightarrow> \<exists>v. getitem d k = Inr v \<and> map_of d k = Some v"
  by (auto simp: contains_def getitem_def)

lemma inherit_chain:
  "tree_inv h r \<Longrightarrow> r \<le> a \<Longrightarrow> a < length h \<Longrightarrow>
   \<exists>ns. parent_chain h (a # ns) \<and> last (a # ns) = r \<and>
        inherit h (Some a) key dflt =
          Some (Inr (case find (\<lambda>n. contains (data (h ! n)) key) (a # ns) of
                       None \<Rightarrow> dflt | Some n \<Rightarrow> get h n key dflt))"
proof (induction a rule: less_induct)
  case (less a)
  show ?case
  proof (cases "parent (h ! a)")
    case None
    with tree_inv_parent [OF less.prems(1), of a] less.prems have ar: "a = r" by force
    have "inherit h (Some a) key dflt =
        Some (Inr (case find (\<lambda>n. contains (data (h ! n)) key) [a] of None \<Rightarrow> dflt | Some n \<Rightarrow> get h n key dflt))"
      using None getitem_contains [of "data (h ! a)" key]
      by (subst inherit.simps) (auto simp: get_def inherit.simps)
    with None ar show ?thesis by (intro exI [of _ "[]"]) simp
  next
    case (Some p)
    with tree_inv_parent [OF less.prems(1), of a] tree_inv_root [OF less.prems(1)] less.prems
    have p: "r \<le> p" "p < a" by (cases "a = r"; force)+
    from less.IH [OF p(2) less.prems(1) p(1)] p less.prems obtain ns where
      ch: "parent_chain h (p # ns)" and la: "last (p # ns) = r"
      and ih: "inherit h (Some p) key dflt =
          Some (Inr (case find (\<lambda>n. contains (data (h ! n)) key) (p # ns) of
                       None \<Rightarrow> dflt | Some n \<Rightarrow> get h n key dflt))" by auto
    have "inherit h (Some a) key dflt =
          Some (Inr (case find (\<lambda>n. contains (data (h ! n)) key) (a # p # ns) of
                       None \<Rightarrow> dflt | Some n \<Rightarrow> get h n key dflt))"
    proof (cases "contains (data (h ! a)) key")
      case True
      with getitem_contains [OF True] show ?thesis
        by (subst inherit.simps) (auto simp: get_def)
    next
      case False
      with ih Some show ?thesis by (subst inherit.simps) simp
    qed
    with ch la Some show ?thesis by (intro exI [of _ "p # ns"]) simp
  qed
qed

text \<open>
  C5. For a node \<open>a\<close> of the tree a first \<open>root()\<close> leaves behind there is the chain of
  parent links from \<open>a\<close> to the root, and \<open>inherit(key, default)\<close> on \<open>a\<close> returns (it
  neither loops nor raises) the value of \<open>key\<close> in the first node of that chain whose
  data contain \<open>key\<close>, or the default when none does.
\<close>

theorem inherit_nearest:
  assumes "cache st = None" and "root fuel env st src = Some out"
    and "a \<in> reach (heap (store_of out)) (length (heap st))"
  shows "\<exists>ns. parent_chain (heap (store_of out)) (a # ns) \<and> last (a # ns) = length (heap st) \<and>
           inherit (heap (store_of out)) (Some a) key dflt =
             Some (Inr (case find (\<lambda>n. contains (data (heap (store_of out) ! n)) key) (a # ns) of
                          None \<Rightarrow> dflt | Some n \<Rightarrow> get (heap (store_of out)) n key dflt))"
proof -
  have inv: "tree_inv (heap (store_of out)) (length (heap st))" by (rule root_first(2) [OF assms(1,2)])
  from reach_bounds [OF inv assms(3)] inherit_chain [OF inv] show ?thesis by simp
qed

theorem inherit_nearest_witness:
  "cache fresh = None \<and> root 10 demo_env fresh demo_src = Some (Returns 0 demo_built)
   \<and> 3 \<in> reach (heap demo_built) 0
   \<and> (\<exists>ns. parent_chain (heap demo_built) (3 # ns) \<and> last (3 # ns) = 0 \<and>
           inherit (heap demo_built) (Some 3) ''title'' PNone =
             Some (Inr (case find (\<lambda>n. contains (data (heap demo_built ! n)) ''title'') (3 # ns) of
                          None \<Rightarrow> PNone | Some n \<Rightarrow> get (heap demo_built) n ''title'' PNone)))
   \<and> inherit (heap demo_built) (Some 3) ''title'' PNone = Some (Inr (PStr ''Blog''))
   \<and> inherit (heap demo_built) (Some 3) ''author'' PNone = Some (Inr PNone)"
proof -
  have c: "cache fresh = None" by (simp add: fresh_def)
  have "node_from (heap demo_built) 0 [''blog'', ''2023'', ''post''] = Some 3" by (simp add: demo_built_def)
  then have m: "3 \<in> reach (heap demo_built) 0" unfolding reach_def by blast
  have len: "length (heap fresh) = 0" by (simp add: fresh_def)
  note T = inherit_nearest [OF c demo_root, unfolded len store_of.simps, OF m, of "''title''" PNone]
  have v1: "inherit (heap demo_built) (Some 3) ''title'' PNone = Some (Inr (PStr ''Blog''))" by code_simp
  have v2: "inherit (heap demo_built) (Some 3) ''author'' PNone = Some (Inr PNone)" by code_simp
  from c demo_root m T v1 v2 show ?thesis by (intro conjI)
qed

subsection \<open>Sorted children\<close>

lemma getitems_keys:
  "set ks \<subseteq> fst ` set d \<Longrightarrow> getitems d ks = Inr (map (\<lambda>k. the (map_of d k)) ks)"
proof (induction ks)
  case Nil
  then show ?case by simp
next
  case (Cons k ks)
  then have "k \<in> fst ` set d" by simp
  then obtain v where "map_of d k = Some v"
    by (metis domD dom_map_of_conv_image_fst)
  with Cons show ?case by (simp add: getitem_def)
qed

text \<open>
  C9. For a node of the tree a first \<open>root()\<close> leaves behind, \<open>childlist\<close> returns
  (no key is missing) the node's children, each once, in ascending order of their
  slugs: the slugs of the list are the sorted keys of the \<open>children\<close> dictionary.
\<close>

theorem childlist_sorted_by_slug:
  assumes "cache st = None" and "root fuel env st src = Some out"
    and "a \<in> reach (heap (store_of out)) (length (heap st))"
  shows "\<exists>cs. childlist (heap (store_of out)) a = Inr cs
           \<and> map (\<lambda>c. slug (heap (store_of out) ! c)) cs = sort (map fst (children (heap (store_of out) ! a)))
           \<and> sorted (map (\<lambda>c. slug (heap (store_of out) ! c)) cs)
           \<and> distinct (map (\<lambda>c. slug (heap (store_of out) ! c)) cs)
           \<and> set cs = snd ` set (children (heap (store_of out) ! a))"
proof -
  let ?h = "heap (store_of out)"
  let ?d = "children (?h ! a)"
  let ?cs = "map (\<lambda>k. the (map_of ?d k)) (sort (map fst ?d))"
  have inv: "tree_inv ?h (length (heap st))" by (rule root_first(2) [OF assms(1,2)])
  from reach_bounds [OF inv assms(3)] have a: "length (heap st) \<le> a" "a < length ?h" by simp_all
  have dist: "distinct (map fst ?d)" by (rule tree_inv_distinct [OF inv a])
  have look: "map_of ?d k = Some c \<and> slug (?h ! c) = k" if "(k, c) \<in> set ?d" for k c
    using that dist tree_inv_child [OF inv a that] by simp
  have cl: "childlist ?h a = Inr ?cs"
    unfolding childlist_def by (rule getitems_keys) simp
  have sl: "map (\<lambda>c. slug (?h ! c)) ?cs = sort (map fst ?d)"
  proof -
    have "slug (?h ! the (map_of ?d k)) = k" if "k \<in> set (sort (map fst ?d))" for k
    proof -
      from that obtain c where "(k, c) \<in> set ?d" by auto
      from look [OF this] show ?thesis by simp
    qed
    then have "map (\<lambda>k. slug (?h ! the (map_of ?d k))) (sort (map fst ?d)) = map (\<lambda>k. k) (sort (map fst ?d))"
      by (intro map_cong) simp_all
    then show ?thesis by (simp add: comp_def)
  qed
  have st: "set ?cs = snd ` set ?d"
  proof (intro set_eqI iffI)
    fix c assume "c \<in> set ?cs"
    then obtain k where k: "k \<in> fst ` set ?d" and c: "c = the (map_of ?d k)" by auto
    from k obtain c' where kc: "(k, c') \<in> set ?d" by auto
    from look [OF kc] c have "c = c'" by simp
    with kc show "c \<in> snd ` set ?d" by force
  next
    fix c assume "c \<in> snd ` set ?d"
    then obtain k where kc: "(k, c) \<in> set ?d" by auto
    from look [OF kc] have "c = the (map_of ?d k)" by simp
    moreover from kc have "k \<in> set (sort (map fst ?d))" by force
    ultimately show "c \<in> set ?cs" by auto
  qed
  have "sorted (sort (map fst ?d))" "distinct (sort (map fst ?d))"
    using dist by simp_all
  with cl sl st show ?thesis by (intro exI [of _ ?cs]) simp
qed

theorem childlist_sorted_by_slug_witness:
  "cache fresh = None \<and> root 10 demo_env fresh sorting_src = Some (Returns 0 sorting_built)
   \<and> 0 \<in> reach (heap sorting_built) 0
   \<and> map fst (children (heap sorting_built ! 0)) = [''gamma'', ''beta'', ''alpha'']
   \<and> childlist (heap sorting_built) 0 = Inr [3, 2, 1]
   \<and> map (\<lambda>c. slug (heap sorting_built ! c)) [3, 2, 1] = [''alpha'', ''beta'', ''gamma'']
   \<and> (\<exists>cs. childlist (heap sorting_built) 0 = Inr cs
           \<and> map (\<lambda>c. slug (heap sorting_built ! c)) cs = sort (map fst (children (heap sorting_built ! 0)))
           \<and> sorted (map (\<lambda>c. slug (heap sorting_built ! c)) cs)
           \<and> distinct (map (\<lambda>c. slug (heap sorting_built ! c)) cs)
           \<and> set cs = snd ` set (children (heap sorting_built ! 0)))"
proof -
  have c: "cache fresh = None" by (simp add: fresh_def)
  have z: "0 \<in> reach (heap sorting_built) 0" unfolding reach_def by (auto intro: exI [of _ "[]"])
  have len: "length (heap fresh) = 0" by (simp add: fresh_def)
  note T = childlist_sorted_by_slug [OF c sorting_root, unfolded len store_of.simps, OF z]
  have k: "map fst (children (heap sorting_built ! 0)) = [''gamma'', ''beta'', ''alpha'']"
    by (simp add: sorting_built_def)
  have v: "childlist (heap sorting_built) 0 = Inr [3, 2, 1]" by code_simp
  have s: "map (\<lambda>c. slug (heap sorting_built ! c)) [3, 2, 1] = [''alpha'', ''beta'', ''gamma'']"
    by (simp add: sorting_built_def)
  from c sorting_root z k v s T show ?thesis by (intro conjI)
qed

subsection \<open>The order of the init_node events\<close>

lemma reach_self: "n \<in> reach h n"
  unfolding reach_def by (auto intro: exI [of _ "[]"])

lemma reach_children:
  assumes "tree_inv h r" and "r \<le> a" and "a < length h"
  shows "reach h a = insert a (\<Union>c\<in>snd ` set (children (h ! a)). reach h c)"
proof (intro set_eqI iffI)
  fix x assume "x \<in> reach h a"
  then obtain ps where ps: "node_from h a ps = Some x" by (auto simp: reach_def)
  show "x \<in> insert a (\<Union>c\<in>snd ` set (children (h ! a)). reach h c)"
  proof (cases ps)
    case Nil
    with ps show ?thesis by simp
  next
    case (Cons s qs)
    with ps obtain c where c: "map_of (children (h ! a)) s = Some c" and q: "node_from h c qs = Some x"
      by (auto split: option.splits)
    from c have "c \<in> snd ` set (children (h ! a))" by (force dest: map_of_SomeD)
    moreover from q have "x \<in> reach h c" by (auto simp: reach_def)
    ultimately show ?thesis by blast
  qed
next
  fix x assume "x \<in> insert a (\<Union>c\<in>snd ` set (children (h ! a)). reach h c)"
  then consider "x = a" | k c where "(k, c) \<in> set (children (h ! a))" "x \<in> reach h c" by auto
  then show "x \<in> reach h a"
  proof cases
    case 1
    then show ?thesis by (simp add: reach_self)
  next
    case 2
    from 2(2) obtain qs where q: "node_from h c qs = Some x" by (auto simp: reach_def)
    from 2(1) tree_inv_distinct [OF assms] have "map_of (children (h ! a)) k = Some c" by simp
    with q have "node_from h a (k # qs) = Some x" by simp
    then show ?thesis unfolding reach_def by blast
  qed
qed

lemma reach_range:
  "tree_inv h r \<Longrightarrow> r \<le> n \<Longrightarrow> n < length h \<Longrightarrow> x \<in> reach h n \<Longrightarrow> n \<le> x \<and> x < length h"
  using node_from_bounds [of h r n] by (auto simp: reach_def)

lemma reach_parent:
  assumes "tree_inv h r" and "r \<le> n" and "n < length h" and "x \<in> reach h n" and "x \<noteq> n"
  shows "\<exists>q. parent (h ! x) = Some q \<and> q \<in> reach h n"
proof -
  from assms(4) obtain ps where ps: "node_from h n ps = Some x" by (auto simp: reach_def)
  with assms(5) have "ps \<noteq> []" by auto
  then obtain qs s where "ps = qs @ [s]" by (cases ps rule: rev_cases) auto
  with ps obtain m where m: "node_from h n qs = Some m" and c: "map_of (children (h ! m)) s = Some x"
    by (auto simp: node_from_append split: option.splits)
  from node_from_bounds [OF assms(1-3) m] assms(2) have "r \<le> m" "m < length h" by simp_all
  from tree_inv_lookup [OF assms(1) this c] have "parent (h ! x) = Some m" by simp
  moreover from m have "m \<in> reach h n" by (auto simp: reach_def)
  ultimately show ?thesis by blast
qed

lemma reach_disjoint:
  assumes inv: "tree_inv h r" and p: "r \<le> p"
    and c1: "c1 < length h" "p < c1" "parent (h ! c1) = Some p"
    and c2: "c2 < length h" "p < c2" "parent (h ! c2) = Some p"
  shows "x \<in> reach h c1 \<Longrightarrow> x \<in> reach h c2 \<Longrightarrow> c1 = c2"
proof (induction x rule: less_induct)
  case (less x)
  have r1: "r \<le> c1" and r2: "r \<le> c2" using p c1 c2 by simp_all
  show ?case
  proof (cases "x = c1 \<or> x = c2")
    case True
    show ?thesis
    proof (rule ccontr)
      assume ne: "c1 \<noteq> c2"
      from True show False
      proof
        assume x: "x = c1"
        with ne less.prems(2) reach_parent [OF inv r2 c2(1), of x] c1(3)
        have "p \<in> reach h c2" by auto
        from reach_range [OF inv r2 c2(1) this] c2(2) show False by simp
      next
        assume x: "x = c2"
        with ne less.prems(1) reach_parent [OF inv r1 c1(1), of x] c2(3)
        have "p \<in> reach h c1" by auto
        from reach_range [OF inv r1 c1(1) this] c1(2) show False by simp
      qed
    qed
  next
    case False
    from reach_parent [OF inv r1 c1(1) less.prems(1)] False obtain q where
      q: "parent (h ! x) = Some q" "q \<in> reach h c1" by auto
    from reach_parent [OF inv r2 c2(1) less.prems(2)] False q have q2: "q \<in> reach h c2" by auto
    from reach_range [OF inv r1 c1(1) less.prems(1)] r1 have xb: "r \<le> x" "x < length h" by simp_all
    have "r < x" using xb q tree_inv_root [OF inv] by (cases "x = r") auto
    from tree_inv_parent [OF inv this xb(2)] q have "q < x" by simp
    from less.IH [OF this q(2) q2] show ?thesis .
  qed
qed

lemma bottom_up_append:
  assumes "fires_bottom_up h xs" and "fires_bottom_up h ys" and "set xs \<inter> set ys = {}"
  shows "fires_bottom_up h (xs @ ys)"
  unfolding fires_bottom_up_def
proof (intro conjI allI impI)
  show "distinct (xs @ ys)" using assms by (simp add: fires_bottom_up_def)
next
  fix pre x post assume eq: "xs @ ys = pre @ x # post"
  then consider us where "xs = pre @ us" "us @ ys = x # post" | us where "xs @ us = pre" "ys = us @ x # post"
    by (auto simp: append_eq_append_conv2)
  then show "reach h x \<subseteq> set (pre @ [x])"
  proof cases
    case 1
    show ?thesis
    proof (cases us)
      case Nil
      with 1 have "ys = [] @ x # post" by simp
      with assms(2) have "reach h x \<subseteq> set ([] @ [x])" unfolding fires_bottom_up_def by blast
      then show ?thesis by auto
    next
      case (Cons u us')
      with 1 have "xs = pre @ x # us'" by simp
      with assms(1) show ?thesis unfolding fires_bottom_up_def by blast
    qed
  next
    case 2
    with assms(2) have "reach h x \<subseteq> set (us @ [x])" unfolding fires_bottom_up_def by blast
    with 2 show ?thesis by auto
  qed
qed

lemma bottom_up_snoc:
  assumes "fires_bottom_up h xs" and "a \<notin> set xs" and "reach h a \<subseteq> insert a (set xs)"
  shows "fires_bottom_up h (xs @ [a])"
  unfolding fires_bottom_up_def
proof (intro conjI allI impI)
  show "distinct (xs @ [a])" using assms by (simp add: fires_bottom_up_def)
next
  fix pre x post assume eq: "xs @ [a] = pre @ x # post"
  show "reach h x \<subseteq> set (pre @ [x])"
  proof (cases post rule: rev_cases)
    case Nil
    with eq have "pre = xs" "x = a" by simp_all
    with assms(3) show ?thesis by auto
  next
    case (snoc post' z)
    with eq have "xs = pre @ x # post'" by simp
    with assms(1) show ?thesis unfolding fires_bottom_up_def by blast
  qed
qed

lemma bottom_up_nil: "fires_bottom_up h []"
  by (simp add: fires_bottom_up_def)

lemma bottom_up_shape:
  assumes "tree_inv h r" and "same_shape h h'" and "set evs \<subseteq> {a. r \<le> a \<and> a < length h}"
  shows "fires_bottom_up h' evs = fires_bottom_up h evs"
proof -
  have "reach h' x = reach h x" if "x \<in> set evs" for x
    using that assms(3) reach_shape [OF assms(1) _ _ assms(2), of x] by auto
  then show ?thesis unfolding fires_bottom_up_def by auto
qed

lemma distinct_map_imp: "distinct (map f xs) \<Longrightarrow> distinct xs"
  by (simp add: distinct_map)

lemma tree_inv_distinct_values:
  assumes "tree_inv h r" and "r \<le> p" and "p < length h"
  shows "distinct (map snd (children (h ! p)))"
proof -
  have eq: "map (\<lambda>c. slug (h ! c)) (map snd (children (h ! p))) = map fst (children (h ! p))"
    using tree_inv_child [OF assms] by (auto intro!: map_cong simp: comp_def)
  have "distinct (map (\<lambda>c. slug (h ! c)) (map snd (children (h ! p))))"
    unfolding eq by (rule tree_inv_distinct [OF assms])
  then show ?thesis by (rule distinct_map_imp)
qed

lemma init_order:
  "tree_inv (heap st) r \<Longrightarrow> r \<le> a \<Longrightarrow> a < length (heap st) \<Longrightarrow> init n env st a = Some (Returns v st') \<Longrightarrow>
     \<exists>evs. events st' = events st @ map (Pair ''init_node'') evs \<and> set evs = reach (heap st) a
          \<and> fires_bottom_up (heap st) evs"
  "tree_inv (heap st) r \<Longrightarrow> r \<le> p \<Longrightarrow> distinct cs \<Longrightarrow>
   (\<forall>c\<in>set cs. c < length (heap st) \<and> p < c \<and> parent (heap st ! c) = Some p) \<Longrightarrow>
   init_children n env st cs = Some (Returns u st'') \<Longrightarrow>
     \<exists>evs. events st'' = events st @ map (Pair ''init_node'') evs \<and> set evs = (\<Union>c\<in>set cs. reach (heap st) c)
          \<and> fires_bottom_up (heap st) evs"
proof (induction n env st a and n env st cs arbitrary: v st' and p u st'' rule: init_init_children.induct)
  case (1 env st self)
  then show ?case by simp
next
  case (2 n env st self)
  let ?h = "heap st"
  from "2.prems"(4) obtain t where t: "getitem (data (?h ! self)) ''text'' = Inr t"
    by (cases "getitem (data (?h ! self)) ''text''") auto
  define st1 where "st1 = setitem st self ''text'' (hfilter env ''node_text'' t (?h ! self))"
  define st2 where "st2 = setitem st1 self ''html''
        (hfilter env ''node_html'' (render env (hfilter env ''node_text'' t (?h ! self)) (ext (heap st1 ! self)))
          (heap st1 ! self))"
  let ?cs = "map snd (children (heap st2 ! self))"
  have sh2: "same_shape ?h (heap st2)"
    unfolding st2_def st1_def by (rule same_shape_trans [OF same_shape_setitem same_shape_setitem])
  have ev2: "events st2 = events st" by (simp add: st2_def st1_def setitem_def)
  have inv2: "tree_inv (heap st2) r" by (rule tree_inv_shape [OF "2.prems"(1) sh2])
  have len: "length (heap st2) = length ?h" using sh2 by (simp add: same_shape_def)
  have ch: "children (heap st2 ! self) = children (?h ! self)"
    using sh2 "2.prems"(3) by (simp add: same_shape_def)
  from "2.prems"(4) t obtain st3 where ic: "init_children n env st2 ?cs = Some (Returns () st3)"
    and st': "st' = event ''init_node'' self st3"
    by (auto simp: Let_def st2_def st1_def split: option.splits outcome.splits)
  have d: "distinct ?cs" using tree_inv_distinct_values [OF inv2 "2.prems"(2)] "2.prems"(3) len by simp
  have cp: "\<forall>c\<in>set ?cs. c < length (heap st2) \<and> self < c \<and> parent (heap st2 ! c) = Some self"
  proof
    fix c assume "c \<in> set ?cs"
    then obtain k where "(k, c) \<in> set (children (heap st2 ! self))" by auto
    from tree_inv_child [OF inv2 "2.prems"(2) _ this] "2.prems"(3) len
    show "c < length (heap st2) \<and> self < c \<and> parent (heap st2 ! c) = Some self" by simp
  qed
  have "\<exists>evs. events st3 = events st2 @ map (Pair ''init_node'') evs
           \<and> set evs = (\<Union>c\<in>set ?cs. reach (heap st2) c) \<and> fires_bottom_up (heap st2) evs"
    using "2.IH" [OF t refl refl refl refl] inv2 "2.prems"(2) d cp ic
    by (simp add: st2_def st1_def)
  then obtain evs where e3: "events st3 = events st2 @ map (Pair ''init_node'') evs"
    and s3: "set evs = (\<Union>c\<in>set ?cs. reach (heap st2) c)" and b3: "fires_bottom_up (heap st2) evs" by blast
  have rs: "reach (heap st2) c = reach ?h c" if "c \<in> set ?cs" for c
    using that cp len "2.prems"(2) reach_shape [OF "2.prems"(1) _ _ sh2, of c] by auto
  have s3': "set evs = (\<Union>c\<in>snd ` set (children (?h ! self)). reach ?h c)"
    using s3 rs ch by auto
  have rng: "self < x \<and> r \<le> x \<and> x < length ?h" if "x \<in> set evs" for x
  proof -
    from that s3 obtain c where c: "c \<in> set ?cs" and x: "x \<in> reach (heap st2) c" by auto
    from cp c "2.prems"(2) have cb: "r \<le> c" "c < length (heap st2)" "self < c" by auto
    from reach_range [OF inv2 cb(1,2) x] cb len "2.prems"(2) show ?thesis by simp
  qed
  have b3': "fires_bottom_up ?h evs"
    using bottom_up_shape [OF "2.prems"(1) sh2, of evs] b3 rng by auto
  have rc: "reach ?h self = insert self (set evs)"
    using reach_children [OF "2.prems"(1-3)] s3' by simp
  have "fires_bottom_up ?h (evs @ [self])"
    by (rule bottom_up_snoc [OF b3']) (use rng rc in auto)
  moreover have "events st' = events st @ map (Pair ''init_node'') (evs @ [self])"
    using st' e3 ev2 by (simp add: event_def)
  moreover have "set (evs @ [self]) = reach ?h self" using rc by simp
  ultimately show ?case by blast
next
  case (3 n env st)
  then show ?case by (auto simp: bottom_up_nil)
next
  case (4 n env st c cs)
  let ?h = "heap st"
  from "4.prems"(5) obtain v1 st1 where i1: "init n env st c = Some (Returns v1 st1)"
    and i2: "init_children n env st1 cs = Some (Returns u st'')"
    by (auto split: option.splits outcome.splits)
  from "4.prems"(2,4) have cb: "r \<le> c" "c < length ?h" "p < c" "parent (?h ! c) = Some p" by auto
  from "4.IH"(1) [OF "4.prems"(1) cb(1,2) i1] obtain evs1 where
    e1: "events st1 = events st @ map (Pair ''init_node'') evs1"
    and s1: "set evs1 = reach ?h c" and b1: "fires_bottom_up ?h evs1" by blast
  from init_frame(1) [OF i1] have sh: "same_shape ?h (heap st1)" by simp
  have inv1: "tree_inv (heap st1) r" by (rule tree_inv_shape [OF "4.prems"(1) sh])
  have len: "length (heap st1) = length ?h" using sh by (simp add: same_shape_def)
  have cp: "\<forall>c'\<in>set cs. c' < length (heap st1) \<and> p < c' \<and> parent (heap st1 ! c') = Some p"
    using "4.prems"(4) sh by (auto simp: same_shape_def)
  from "4.prems"(3) have dcs: "distinct cs" and cn: "c \<notin> set cs" by simp_all
  from "4.IH"(2) [OF i1 refl inv1 "4.prems"(2) dcs cp i2] obtain evs2 where
    e2: "events st'' = events st1 @ map (Pair ''init_node'') evs2"
    and s2: "set evs2 = (\<Union>c'\<in>set cs. reach (heap st1) c')" and b2: "fires_bottom_up (heap st1) evs2" by blast
  have rs: "reach (heap st1) c' = reach ?h c'" if "c' \<in> set cs" for c'
    using that "4.prems"(2,4) reach_shape [OF "4.prems"(1) _ _ sh, of c'] by auto
  have s2': "set evs2 = (\<Union>c'\<in>set cs. reach ?h c')" using s2 rs by auto
  have rng: "r \<le> x \<and> x < length ?h" if "x \<in> set evs2" for x
  proof -
    from that s2' obtain c' where c': "c' \<in> set cs" and x: "x \<in> reach ?h c'" by auto
    from "4.prems"(2,4) c' have "r \<le> c'" "c' < length ?h" by auto
    from reach_range [OF "4.prems"(1) this x] this show ?thesis by simp
  qed
  have b2': "fires_bottom_up ?h evs2"
    using bottom_up_shape [OF "4.prems"(1) sh, of evs2] b2 rng by auto
  have dis: "set evs1 \<inter> set evs2 = {}"
  proof (rule ccontr)
    assume "set evs1 \<inter> set evs2 \<noteq> {}"
    then obtain x c' where x1: "x \<in> reach ?h c" and c': "c' \<in> set cs" and x2: "x \<in> reach ?h c'"
      using s1 s2' by auto
    from "4.prems"(4) c' have "c' < length ?h" "p < c'" "parent (?h ! c') = Some p" by auto
    from reach_disjoint [OF "4.prems"(1,2) cb(2,3,4) this x1 x2] c' cn show False by simp
  qed
  have "fires_bottom_up ?h (evs1 @ evs2)" by (rule bottom_up_append [OF b1 b2' dis])
  moreover have "events st'' = events st @ map (Pair ''init_node'') (evs1 @ evs2)"
    using e1 e2 by simp
  moreover have "set (evs1 @ evs2) = (\<Union>c'\<in>set (c # cs). reach ?h c')" using s1 s2' by auto
  ultimately show ?case by blast
qed

text \<open>
  With fuel beyond the number of objects the first \<open>root()\<close> comes to an end: it returns
  the new root, or it raises the error the scan raised.
\<close>

lemma root_total:
  assumes "cache st = None"
  shows "\<exists>n. \<forall>fuel\<ge>n.
           (\<exists>st'. root fuel env st src = Some (Returns (length (heap st)) st'))
         \<or> (\<exists>e h. parse_node_directory env (length (heap st)) (heap st @ [new_node]) (length (heap st)) src
                      = Some (Raises e h)
                 \<and> root fuel env st src = Some (Raises e (st\<lparr>cache := Some (length (heap st)), heap := h\<rparr>)))"
proof -
  let ?r = "length (heap st)"
  from root_build [of env "heap st" src] obtain bout where
    b: "parse_node_directory env ?r (heap st @ [new_node]) ?r src = Some bout"
    and inv: "tree_inv (store_of bout) ?r" by blast
  show ?thesis
  proof (cases bout)
    case (Raises e h)
    with b root_raises [OF assms, of env src e h] show ?thesis by auto
  next
    case (Returns u h1)
    let ?st1 = "st\<lparr>cache := Some ?r, heap := h1\<rparr>"
    have "\<exists>st'. root fuel env st src = Some (Returns ?r st')" if "Suc (length h1) \<le> fuel" for fuel
    proof -
      from inv Returns have i: "tree_inv (heap ?st1) ?r" by simp
      from tree_inv_root [OF i] have "?r < length (heap ?st1)" by simp
      moreover from that have "length (heap ?st1) - ?r < fuel" by simp
      ultimately obtain st2 where "init fuel env ?st1 ?r = Some (Returns ?r st2)"
        using init_returns(1) [OF i, of ?r fuel env] by auto
      with assms b Returns show ?thesis by (simp add: root_def Let_def)
    qed
    then show ?thesis by blast
  qed
qed

text \<open>
  C4. The first \<open>root()\<close> comes to an end once the fuel is large enough, and raises only
  what the scan raised. When it returns, what it added to the event log is one
  \<open>init_node\<close> event for each node of the tree and no other, then \<open>init_tree\<close>; no node
  fires twice; and at the position where a node \<open>x\<close> fires, every node of the tree under
  \<open>x\<close> (every descendant) stands before it in the log.
\<close>

theorem init_node_fires_bottom_up:
  assumes "cache st = None"
  shows "(\<exists>n. \<forall>fuel\<ge>n. \<exists>out. root fuel env st src = Some out
            \<and> (\<forall>e st'. out = Raises e st' \<longrightarrow>
                  parse_node_directory env (length (heap st)) (heap st @ [new_node]) (length (heap st)) src
                    = Some (Raises e (heap st'))))
       \<and> (\<forall>fuel r st'. root fuel env st src = Some (Returns r st') \<longrightarrow>
            (\<exists>evs. events st' = events st @ map (Pair ''init_node'') evs @ [(''init_tree'', r)]
                 \<and> distinct evs \<and> set evs = reach (heap st') r
                 \<and> (\<forall>pre x post. evs = pre @ x # post \<longrightarrow> reach (heap st') x \<subseteq> set (pre @ [x]))))"
proof (intro conjI allI impI)
  from root_total [OF assms, of env src] obtain n where
    n: "\<And>fuel. n \<le> fuel \<Longrightarrow>
           (\<exists>st'. root fuel env st src = Some (Returns (length (heap st)) st'))
         \<or> (\<exists>e h. parse_node_directory env (length (heap st)) (heap st @ [new_node]) (length (heap st)) src
                      = Some (Raises e h)
                 \<and> root fuel env st src = Some (Raises e (st\<lparr>cache := Some (length (heap st)), heap := h\<rparr>)))"
    by blast
  have "\<exists>out. root fuel env st src = Some out
            \<and> (\<forall>e st'. out = Raises e st' \<longrightarrow>
                  parse_node_directory env (length (heap st)) (heap st @ [new_node]) (length (heap st)) src
                    = Some (Raises e (heap st')))" if "n \<le> fuel" for fuel
    using n [OF that] by auto
  then show "\<exists>n. \<forall>fuel\<ge>n. \<exists>out. root fuel env st src = Some out
            \<and> (\<forall>e st'. out = Raises e st' \<longrightarrow>
                  parse_node_directory env (length (heap st)) (heap st @ [new_node]) (length (heap st)) src
                    = Some (Raises e (heap st')))" by blast
next
  fix fuel r st' assume ret: "root fuel env st src = Some (Returns r st')"
  let ?r = "length (heap st)"
  from root_returns [OF assms ret] obtain h1 st2 where
    b: "parse_node_directory env ?r (heap st @ [new_node]) ?r src = Some (Returns () h1)"
    and i: "init fuel env (st\<lparr>cache := Some ?r, heap := h1\<rparr>) ?r = Some (Returns ?r st2)"
    and st': "st' = event ''init_tree'' ?r st2" and r: "r = ?r" by blast
  from root_build [of env "heap st" src] b have inv: "tree_inv h1 ?r" by auto
  let ?st1 = "st\<lparr>cache := Some ?r, heap := h1\<rparr>"
  from inv have inv1: "tree_inv (heap ?st1) ?r" by simp
  from tree_inv_root [OF inv] have rl: "?r < length (heap ?st1)" by simp
  from init_order(1) [OF inv1 _ rl i] obtain evs where
    e: "events st2 = events st @ map (Pair ''init_node'') evs"
    and s: "set evs = reach h1 ?r" and bu: "fires_bottom_up h1 evs" by auto
  from init_frame(1) [OF i] have sh: "same_shape h1 (heap st2)" by simp
  have rng: "set evs \<subseteq> {a. ?r \<le> a \<and> a < length h1}"
    using s reach_bounds [OF inv] by auto
  have bu': "fires_bottom_up (heap st2) evs"
    using bottom_up_shape [OF inv sh rng] bu by simp
  have s': "set evs = reach (heap st2) ?r"
    using s reach_shape [OF inv _ _ sh, of ?r] tree_inv_root [OF inv] by simp
  have "events st' = events st @ map (Pair ''init_node'') evs @ [(''init_tree'', r)]"
    using e st' r by (simp add: event_def)
  moreover have "heap st' = heap st2" using st' by (simp add: event_def)
  ultimately show "\<exists>evs. events st' = events st @ map (Pair ''init_node'') evs @ [(''init_tree'', r)]
                 \<and> distinct evs \<and> set evs = reach (heap st') r
                 \<and> (\<forall>pre x post. evs = pre @ x # post \<longrightarrow> reach (heap st') x \<subseteq> set (pre @ [x]))"
    using bu' s' r unfolding fires_bottom_up_def by (intro exI [of _ evs]) simp
qed

theorem init_node_fires_bottom_up_witness:
  "cache fresh = None \<and> root 10 demo_env fresh demo_src = Some (Returns 0 demo_built)
   \<and> events demo_built = events fresh @ map (Pair ''init_node'') [3, 2, 1, 0] @ [(''init_tree'', 0)]
   \<and> (\<exists>evs. events demo_built = events fresh @ map (Pair ''init_node'') evs @ [(''init_tree'', 0)]
          \<and> distinct evs \<and> set evs = reach (heap demo_built) 0
          \<and> (\<forall>pre x post. evs = pre @ x # post \<longrightarrow> reach (heap demo_built) x \<subseteq> set (pre @ [x])))"
proof -
  have c: "cache fresh = None" by (simp add: fresh_def)
  note T = init_node_fires_bottom_up [OF c, of demo_env demo_src, THEN conjunct2, THEN spec, THEN spec, THEN spec,
      THEN mp, OF demo_root]
  have e: "events demo_built = events fresh @ map (Pair ''init_node'') [3, 2, 1, 0] @ [(''init_tree'', 0)]"
    by (simp add: demo_built_def fresh_def)
  from c demo_root e T show ?thesis by (intro conjI)
qed

subsection \<open>Coterminous files and directories\<close>
















end
